theory Spec2Isabelle
  imports Main
begin

section \<open>Data model\<close>

text \<open>
  A sudoku is a two-dimensional numpy array of integers. It is modelled as the list of its
  rows; cell \<open>(y, x)\<close> of \<open>g\<close> is \<open>g ! y ! x\<close>, and \<open>0\<close> marks an empty cell. The
  solver compares cells with digits and stores digits between 0 and 9 only, so the width
  of the array's element type plays no role.
\<close>

type_synonym grid = "int list list"

text \<open>
  \<open>sudoku[y, x] = n\<close>. The solver only writes at positions returned by \<open>np.where\<close>,
  which are inside the array; outside the array the list update leaves the grid as it is.
\<close>

definition put :: "grid \<Rightarrow> nat \<Rightarrow> nat \<Rightarrow> int \<Rightarrow> grid" where
  "put g y x n = g[y := (g ! y)[x := n]]"

text \<open>\<open>zip(*np.where(sudoku == 0))\<close>: the coordinates of the empty cells, row by row.\<close>

definition zero_cells :: "grid \<Rightarrow> (nat \<times> nat) list" where
  "zero_cells g =
     concat (map (\<lambda>y. map (\<lambda>x. (y, x)) (filter (\<lambda>x. g ! y ! x = 0) [0..<length (g ! y)]))
                 [0..<length g])"

text \<open>
  \<open>possible\<close>: the digit must not occur in row \<open>y\<close>, in column \<open>x\<close>, nor in the slice
  \<open>sudoku[y0:y0+3, x0:x0+3]\<close> (slices stop at the end of the array, as \<open>take\<close> and
  \<open>drop\<close> do). The solver calls it on cells of the array only, and the theorems about it
  take \<open>y\<close> and \<open>x\<close> below 9; an index outside the array would raise in numpy.
\<close>

definition possible :: "grid \<Rightarrow> nat \<Rightarrow> nat \<Rightarrow> int \<Rightarrow> bool" where
  "possible g y x n =
     (if n \<in> set (g ! y) then False
      else if n \<in> set (map (\<lambda>r. r ! x) g) then False
      else (let x0 = x div 3 * 3; y0 = y div 3 * 3 in
            if n \<in> set (concat (map (\<lambda>r. take 3 (drop x0 r)) (take 3 (drop y0 g))))
            then False else True))"

text \<open>
  \<open>max_solutions\<close> is a number, or the string \<open>'max'\<close> that \<open>solve\<close> replaces by
  \<open>np.inf\<close>. \<open>below k ms\<close> is the test \<open>len(_sudoku_solutions) < max_solutions\<close>.
\<close>

datatype max_solutions = Limit int | Unbounded

fun below :: "nat \<Rightarrow> max_solutions \<Rightarrow> bool" where
  "below k (Limit m) = (int k < m)"
| "below k Unbounded = True"

text \<open>
  The module constants \<open>valid_numbers = np.arange(10)\<close>, \<open>list_numbers = valid_numbers[1:]\<close>
  and \<open>set_numbers = set(list_numbers)\<close>.
\<close>

definition valid_numbers :: "int list" where
  "valid_numbers = [0..9]"

definition list_numbers :: "int list" where
  "list_numbers = drop 1 valid_numbers"

definition set_numbers :: "int set" where
  "set_numbers = set list_numbers"

text \<open>
  \<open>valid_sudoku\<close> receives whatever array the file held, of any number of dimensions:
  an array is its shape together with its elements in row-major order.
\<close>

record ndarray =
  shape :: "nat list"
  data :: "int list"

definition valid_sudoku :: "ndarray \<Rightarrow> bool" where
  "valid_sudoku sudoku =
     (let shp = filter (\<lambda>v. v \<noteq> 1) (shape sudoku);
          dim = (length shp = 2 \<and> shp ! 0 = shp ! 1 \<and> shp ! 1 = 9);
          num = list_all (\<lambda>v. v \<in> set valid_numbers) (data sudoku)
      in dim \<and> num)"

text \<open>
  \<open>check_sudoku\<close>: the rows, the columns (rows of the transposed array) and the nine
  slices \<open>sudoku[:3, :3]\<close>, \<open>sudoku[:3, 3:6]\<close>, \<open>sudoku[:3, 6:]\<close>, ... as sets.
\<close>

definition check_sudoku :: "grid \<Rightarrow> bool" where
  "check_sudoku sudoku =
     (let rows = list_all (\<lambda>r. set r = set_numbers) sudoku;
          cols = list_all (\<lambda>r. set r = set_numbers) (transpose sudoku);
          q1 = (set (concat (map (take 3) (take 3 sudoku))) = set_numbers);
          q2 = (set (concat (map (\<lambda>r. take 3 (drop 3 r)) (take 3 sudoku))) = set_numbers);
          q3 = (set (concat (map (drop 6) (take 3 sudoku))) = set_numbers);
          q4 = (set (concat (map (take 3) (take 3 (drop 3 sudoku)))) = set_numbers);
          q5 = (set (concat (map (\<lambda>r. take 3 (drop 3 r)) (take 3 (drop 3 sudoku))))
                  = set_numbers);
          q6 = (set (concat (map (drop 6) (take 3 (drop 3 sudoku)))) = set_numbers);
          q7 = (set (concat (map (take 3) (drop 6 sudoku))) = set_numbers);
          q8 = (set (concat (map (\<lambda>r. take 3 (drop 3 r)) (drop 6 sudoku))) = set_numbers);
          q9 = (set (concat (map (drop 6) (drop 6 sudoku))) = set_numbers)
      in list_all (\<lambda>b. b) [rows, cols, q1, q2, q3, q4, q5, q6, q7, q8, q9])"

text \<open>A sudoku proper has nine rows of nine cells.\<close>

definition grid9 :: "grid \<Rightarrow> bool" where
  "grid9 g \<longleftrightarrow> length g = 9 \<and> (\<forall>r \<in> set g. length r = 9)"

section \<open>Example grids\<close>

text \<open>A filled grid that breaks every rule, and a solved grid with diagonal \<open>1, ..., 9\<close>.\<close>

definition all_ones :: grid where
  "all_ones = replicate 9 (replicate 9 1)"

definition solved_diag :: grid where
  "solved_diag =
    [[1, 4, 5, 2, 3, 7, 6, 9, 8],
     [6, 2, 7, 1, 8, 9, 3, 4, 5],
     [8, 9, 3, 5, 6, 4, 1, 2, 7],
     [2, 1, 6, 4, 7, 8, 9, 5, 3],
     [3, 7, 4, 9, 5, 1, 8, 6, 2],
     [5, 8, 9, 3, 2, 6, 4, 7, 1],
     [4, 5, 1, 8, 9, 2, 7, 3, 6],
     [9, 6, 2, 7, 1, 3, 5, 8, 4],
     [7, 3, 8, 6, 4, 5, 2, 1, 9]]"

text \<open>
  A grid of ones with one empty cell, and a grid whose first empty cell admits no digit.
\<close>

definition one_hole :: grid where
  "one_hole = [0, 1, 1, 1, 1, 1, 1, 1, 1] # replicate 8 (replicate 9 1)"

definition dead_end :: grid where
  "dead_end =
     [0, 1, 2, 3, 4, 5, 6, 7, 8] # [9, 0, 0, 0, 0, 0, 0, 0, 0] # replicate 7 (replicate 9 0)"

lemma grid9_solved_diag: "grid9 solved_diag"
  by (simp add: grid9_def solved_diag_def)

lemma check_solved_diag: "check_sudoku solved_diag"
  by code_simp

section \<open>Empty cells and termination\<close>

subsection \<open>Writing a cell\<close>

lemma put_length [simp]: "length (put g y x n) = length g"
  by (simp add: put_def)

lemma put_row_length [simp]: "length (put g y x n ! y') = length (g ! y')"
  by (cases "y < length g") (auto simp: put_def nth_list_update list_update_beyond)

lemma put_nth:
  "y' < length g \<Longrightarrow> x' < length (g ! y') \<Longrightarrow>
   put g y x n ! y' ! x' = (if y' = y \<and> x' = x then n else g ! y' ! x')"
  by (cases "y < length g") (auto simp: put_def nth_list_update list_update_beyond)

lemma set_zero_cells:
  "set (zero_cells g) = {(y, x). y < length g \<and> x < length (g ! y) \<and> g ! y ! x = 0}"
  by (auto simp: zero_cells_def)

lemma zero_cells_put_nonzero:
  "n \<noteq> 0 \<Longrightarrow> set (zero_cells (put g y x n)) = set (zero_cells g) - {(y, x)}"
  by (auto simp: set_zero_cells put_nth split: if_splits)

lemma zero_cells_put_subset:
  "set (zero_cells (put g y x n)) \<subseteq> insert (y, x) (set (zero_cells g))"
  by (auto simp: set_zero_cells put_nth split: if_splits)

section \<open>The backtracking search\<close>

text \<open>
  \<open>solve\<close> mutates the array it is given and appends to the shared list
  \<open>_sudoku_solutions\<close>; the model passes both as a state \<open>(grid, solutions)\<close> and returns
  the state at the end of the call. A top-level call starts with the empty list. The
  \<open>interactive\<close> flag only prints the grid and waits for a key, and is left out. What is
  appended is \<open>sudoku.copy()\<close>, a value of its own, so recorded grids are values here too.
  The outer \<open>for\<close> loop of \<open>solve\<close> returns at the end of its first iteration, so only
  the first empty cell is used. \<open>try_digits\<close> is the inner loop
  \<open>for n in range(1, 10)\<close> from digit list \<open>ns\<close> on; it goes on with the grid as the
  recursive call left it.
\<close>

function solve :: "max_solutions \<Rightarrow> grid \<times> grid list \<Rightarrow> grid \<times> grid list"
  and try_digits :: "max_solutions \<Rightarrow> nat \<Rightarrow> nat \<Rightarrow> int list \<Rightarrow> grid \<times> grid list \<Rightarrow> grid \<times> grid list"
where
  "solve ms (g, sols) =
     (case zero_cells g of
        [] \<Rightarrow> (g, sols @ [g])
      | (y0, x0) # _ \<Rightarrow> try_digits ms y0 x0 [1..9] (g, sols))"
| "try_digits ms y0 x0 [] st = st"
| "try_digits ms y0 x0 (n # ns) (g, sols) =
     (if possible g y0 x0 n then
        (case solve ms (put g y0 x0 n, sols) of
           (g1, sols1) \<Rightarrow>
             try_digits ms y0 x0 ns
               (if below (length sols1) ms then put g1 y0 x0 0 else g1, sols1))
      else try_digits ms y0 x0 ns (g, sols))"
  by pat_completeness auto

text \<open>
  Termination. Inside its domain the search never empties a cell that was filled when the
  call started; with this the empty cells of the grid decrease along every recursive call.
\<close>

lemma solve_zeros_partial:
  "solve_try_digits_dom (Inl (ms, st)) \<Longrightarrow>
     set (zero_cells (fst (solve ms st))) \<subseteq> set (zero_cells (fst st))"
  "solve_try_digits_dom (Inr (ms, y0, x0, ns, st)) \<Longrightarrow>
     insert (y0, x0) (set (zero_cells (fst (try_digits ms y0 x0 ns st))))
       \<subseteq> insert (y0, x0) (set (zero_cells (fst st)))"
proof (induction rule: solve_try_digits.pinduct)
  case (1 ms g sols)
  show ?case
  proof (cases "zero_cells g")
    case Nil
    with 1(1) show ?thesis by (simp add: solve.psimps)
  next
    case (Cons p rest)
    obtain y x where p: "p = (y, x)" by (cases p)
    have mem: "(y, x) \<in> set (zero_cells g)" using Cons p by simp
    from 1(2)[OF Cons p[symmetric]] mem
    show ?thesis using 1(1) Cons p by (auto simp: solve.psimps)
  qed
next
  case (2 ms y0 x0 st)
  then show ?case by (simp add: try_digits.psimps)
next
  case (3 ms y0 x0 n ns g sols)
  show ?case
  proof (cases "possible g y0 x0 n")
    case False
    with 3(1) 3(4) show ?thesis by (simp add: try_digits.psimps)
  next
    case True
    obtain g1 sols1 where s: "solve ms (put g y0 x0 n, sols) = (g1, sols1)"
      by (cases "solve ms (put g y0 x0 n, sols)")
    let ?g2 = "if below (length sols1) ms then put g1 y0 x0 0 else g1"
    have a: "set (zero_cells g1) \<subseteq> set (zero_cells (put g y0 x0 n))"
      using 3(2)[OF True] s by simp
    have b: "set (zero_cells g1) \<subseteq> insert (y0, x0) (set (zero_cells g))"
      using a zero_cells_put_subset[of g y0 x0 n] by blast
    have c: "insert (y0, x0) (set (zero_cells ?g2)) \<subseteq> insert (y0, x0) (set (zero_cells g))"
      using b zero_cells_put_subset[of g1 y0 x0 0] by auto
    have d: "insert (y0, x0) (set (zero_cells (fst (try_digits ms y0 x0 ns (?g2, sols1)))))
               \<subseteq> insert (y0, x0) (set (zero_cells ?g2))"
      using 3(3)[OF True s[symmetric]] by simp
    have "try_digits ms y0 x0 (n # ns) (g, sols) = try_digits ms y0 x0 ns (?g2, sols1)"
      using 3(1) True s by (simp add: try_digits.psimps)
    with c d show ?thesis by auto
  qed
qed

definition frame_size :: "nat \<Rightarrow> nat \<Rightarrow> int list \<Rightarrow> grid \<Rightarrow> nat" where
  "frame_size y0 x0 ns g =
     (let e = card (insert (y0, x0) (set (zero_cells g)))
      in if 0 \<in> set ns then 2 * e + 2 else 2 * e - 1)"

termination solve
proof (relation "measures
    [\<lambda>a. case a of Inl (ms, g, sols) \<Rightarrow> 2 * card (set (zero_cells g))
                 | Inr (ms, y0, x0, ns, g, sols) \<Rightarrow> frame_size y0 x0 ns g,
     \<lambda>a. case a of Inl _ \<Rightarrow> 0 | Inr (ms, y0, x0, ns, st) \<Rightarrow> length ns]", goal_cases)
  case 1
  show ?case by simp
next
  case (2 ms g sols p rest y x)
  then have "(y, x) \<in> set (zero_cells g)" by simp
  then have "insert (y, x) (set (zero_cells g)) = set (zero_cells g)"
    "card (set (zero_cells g)) > 0"
    by (auto simp: card_gt_0_iff)
  then show ?case by (simp add: frame_size_def)
next
  case (3 ms y0 x0 n ns g sols)
  have fin: "finite (insert (y0, x0) (set (zero_cells g)))" by simp
  show ?case
  proof (cases "0 \<in> set (n # ns)")
    case True
    have "card (set (zero_cells (put g y0 x0 n))) \<le> card (insert (y0, x0) (set (zero_cells g)))"
      by (rule card_mono[OF fin zero_cells_put_subset])
    with True show ?thesis by (simp add: frame_size_def Let_def)
  next
    case False
    then have n: "n \<noteq> 0" by auto
    have "set (zero_cells (put g y0 x0 n)) = insert (y0, x0) (set (zero_cells g)) - {(y0, x0)}"
      using zero_cells_put_nonzero[OF n, of g y0 x0] by auto
    then have "card (set (zero_cells (put g y0 x0 n))) = card (insert (y0, x0) (set (zero_cells g))) - 1"
      by (simp only: card_Diff_singleton[OF insertI1])
    moreover have "card (insert (y0, x0) (set (zero_cells g))) > 0"
      by (simp add: card_gt_0_iff)
    ultimately have "2 * card (set (zero_cells (put g y0 x0 n)))
                       < 2 * card (insert (y0, x0) (set (zero_cells g))) - 1"
      by arith
    then show ?thesis using False by (simp add: frame_size_def Let_def)
  qed
next
  case (4 ms y0 x0 n ns g sols g1 sols1)
  let ?g2 = "if below (length sols1) ms then put g1 y0 x0 0 else g1"
  have a: "set (zero_cells g1) \<subseteq> set (zero_cells (put g y0 x0 n))"
    using solve_zeros_partial(1)[OF 4(3)] 4(2)[symmetric] by simp
  have b: "set (zero_cells g1) \<subseteq> insert (y0, x0) (set (zero_cells g))"
    using a zero_cells_put_subset[of g y0 x0 n] by blast
  have c: "insert (y0, x0) (set (zero_cells ?g2)) \<subseteq> insert (y0, x0) (set (zero_cells g))"
    using b zero_cells_put_subset[of g1 y0 x0 0] by auto
  have le: "card (insert (y0, x0) (set (zero_cells ?g2))) \<le> card (insert (y0, x0) (set (zero_cells g)))"
    by (rule card_mono[OF _ c]) simp
  have pos: "card (insert (y0, x0) (set (zero_cells ?g2))) > 0"
    by (simp add: card_gt_0_iff)
  show ?case using le pos by (auto simp: frame_size_def Let_def)
next
  case (5 ms y0 x0 n ns g sols)
  have "card (insert (y0, x0) (set (zero_cells g))) > 0"
    by (simp add: card_gt_0_iff)
  then show ?case by (auto simp: frame_size_def Let_def)
qed

declare solve.simps [simp del]

section \<open>Puzzle generation\<close>

text \<open>
  \<open>generate_sudoku\<close> draws from numpy's random generator twice. The model takes both
  draws as arguments: \<open>shuffled\<close> is \<open>list_numbers\<close> after \<open>np.random.shuffle\<close>, and
  \<open>choice size\<close> is \<open>np.random.choice(np.arange(81), size, replace=False)\<close>. The
  difficulty is tested before anything else; \<open>solve\<close> runs with its default
  \<open>max_solutions = 1\<close>; \<open>[0]\<close> on an empty list raises \<open>IndexError\<close>;
  \<open>sudoku.ravel()[idx] = 0\<close> clears the cells with flat indices \<open>idx\<close>, cell \<open>i\<close> of the
  9x9 array being \<open>(i div 9, i mod 9)\<close>. Writing the file (\<open>file_path\<close>) is left out.
\<close>

datatype error = ValueError | IndexError

definition np_diag :: "int list \<Rightarrow> grid" where
  "np_diag v = map (\<lambda>i. (replicate (length v) 0)[i := v ! i]) [0..<length v]"

definition clear_cells :: "nat list \<Rightarrow> grid \<Rightarrow> grid" where
  "clear_cells idx g = fold (\<lambda>i h. put h (i div 9) (i mod 9) 0) idx g"

definition generate_sudoku :: "string \<Rightarrow> int list \<Rightarrow> (nat \<Rightarrow> nat list) \<Rightarrow> error + grid" where
  "generate_sudoku difficulty shuffled choice =
     (case (if difficulty = ''easy'' then Inr 30
            else if difficulty = ''medium'' then Inr 24
            else if difficulty = ''hard'' then Inr 17
            else Inl ValueError) of
        Inl e \<Rightarrow> Inl e
      | Inr numbersin \<Rightarrow>
          (case snd (solve (Limit 1) (np_diag shuffled, [])) of
             [] \<Rightarrow> Inl IndexError
           | sudoku # _ \<Rightarrow> Inr (clear_cells (choice (9 * 9 - numbersin)) sudoku)))"

section \<open>What every run of the search preserves\<close>

text \<open>
  The facts of this section hold for every grid, every limit and every solution list the
  search starts from. \<open>keeps g h\<close>: \<open>h\<close> has the shape of \<open>g\<close> and every filled cell of
  \<open>g\<close> is unchanged in \<open>h\<close>; \<open>keeps_except p g h\<close> exempts the cell \<open>p\<close>.
\<close>

definition keeps_except :: "nat \<times> nat \<Rightarrow> grid \<Rightarrow> grid \<Rightarrow> bool" where
  "keeps_except p g h \<longleftrightarrow>
     length h = length g \<and>
     (\<forall>y < length g. length (h ! y) = length (g ! y) \<and>
        (\<forall>x < length (g ! y). (y, x) \<noteq> p \<longrightarrow> g ! y ! x \<noteq> 0 \<longrightarrow> h ! y ! x = g ! y ! x))"

definition keeps :: "grid \<Rightarrow> grid \<Rightarrow> bool" where
  "keeps g h \<longleftrightarrow>
     length h = length g \<and>
     (\<forall>y < length g. length (h ! y) = length (g ! y) \<and>
        (\<forall>x < length (g ! y). g ! y ! x \<noteq> 0 \<longrightarrow> h ! y ! x = g ! y ! x))"

lemma keeps_refl: "keeps g g"
  by (simp add: keeps_def)

lemma keeps_except_refl: "keeps_except p g g"
  by (simp add: keeps_except_def)

lemma keeps_imp_except: "keeps g h \<Longrightarrow> keeps_except p g h"
  by (simp add: keeps_def keeps_except_def)

lemma keeps_except_zero:
  "keeps_except (y, x) g h \<Longrightarrow> (y, x) \<in> set (zero_cells g) \<Longrightarrow> keeps g h"
  by (auto simp: keeps_def keeps_except_def set_zero_cells)

lemma keeps_except_trans:
  "keeps_except p g h \<Longrightarrow> keeps_except p h k \<Longrightarrow> keeps_except p g k"
  unfolding keeps_except_def by (metis (no_types, lifting))

lemma keeps_except_put: "keeps_except (y, x) g (put g y x n)"
  by (auto simp: keeps_except_def put_nth)

lemma solve_keeps_cells:
  "keeps (fst st) (fst (solve ms st))"
  "keeps_except (y0, x0) (fst st) (fst (try_digits ms y0 x0 ns st))"
proof (induction ms st and ms y0 x0 ns st rule: solve_try_digits.induct)
  case (1 ms g sols)
  show ?case
  proof (cases "zero_cells g")
    case Nil
    then show ?thesis by (simp add: solve.simps keeps_refl)
  next
    case (Cons p rest)
    obtain y x where p: "p = (y, x)" by (cases p)
    have mem: "(y, x) \<in> set (zero_cells g)" using Cons p by simp
    have "keeps_except (y, x) g (fst (try_digits ms y x [1..9] (g, sols)))"
      using 1[OF Cons p[symmetric]] by simp
    then show ?thesis using Cons p keeps_except_zero[OF _ mem] by (simp add: solve.simps)
  qed
next
  case (2 ms y0 x0 st)
  show ?case by (simp add: keeps_except_refl)
next
  case (3 ms y0 x0 n ns g sols)
  show ?case
  proof (cases "possible g y0 x0 n")
    case False
    with 3(3) show ?thesis by simp
  next
    case True
    obtain g1 sols1 where s: "solve ms (put g y0 x0 n, sols) = (g1, sols1)"
      by (cases "solve ms (put g y0 x0 n, sols)")
    let ?g2 = "if below (length sols1) ms then put g1 y0 x0 0 else g1"
    have a: "keeps_except (y0, x0) g (put g y0 x0 n)" by (rule keeps_except_put)
    have b: "keeps_except (y0, x0) (put g y0 x0 n) g1"
      using 3(1)[OF True] s by (simp add: keeps_imp_except)
    have c: "keeps_except (y0, x0) g1 ?g2"
      by (simp add: keeps_except_put keeps_except_refl)
    have d: "keeps_except (y0, x0) ?g2 (fst (try_digits ms y0 x0 ns (?g2, sols1)))"
      using 3(2)[OF True s[symmetric]] by simp
    have "try_digits ms y0 x0 (n # ns) (g, sols) = try_digits ms y0 x0 ns (?g2, sols1)"
      using True s by simp
    then show ?thesis
      using keeps_except_trans[OF keeps_except_trans[OF keeps_except_trans[OF a b] c] d]
      by simp
  qed
qed

lemma below_mono: "below k' ms \<Longrightarrow> k \<le> k' \<Longrightarrow> below k ms"
  by (cases ms) auto

lemma solve_appends:
  "\<exists>new. snd (solve ms st) = snd st @ new"
  "\<exists>new. snd (try_digits ms y0 x0 ns st) = snd st @ new"
proof (induction ms st and ms y0 x0 ns st rule: solve_try_digits.induct)
  case (1 ms g sols)
  show ?case
  proof (cases "zero_cells g")
    case Nil
    then show ?thesis by (simp add: solve.simps)
  next
    case (Cons p rest)
    obtain y x where p: "p = (y, x)" by (cases p)
    show ?thesis using 1[OF Cons p[symmetric]] Cons p by (simp add: solve.simps)
  qed
next
  case (2 ms y0 x0 st)
  show ?case by simp
next
  case (3 ms y0 x0 n ns g sols)
  show ?case
  proof (cases "possible g y0 x0 n")
    case False
    with 3(3) show ?thesis by simp
  next
    case True
    obtain g1 sols1 where s: "solve ms (put g y0 x0 n, sols) = (g1, sols1)"
      by (cases "solve ms (put g y0 x0 n, sols)")
    let ?g2 = "if below (length sols1) ms then put g1 y0 x0 0 else g1"
    obtain new1 where n1: "sols1 = sols @ new1"
      using 3(1)[OF True] s by auto
    obtain new2 where n2: "snd (try_digits ms y0 x0 ns (?g2, sols1)) = sols1 @ new2"
      using 3(2)[OF True s[symmetric]] by auto
    have "try_digits ms y0 x0 (n # ns) (g, sols) = try_digits ms y0 x0 ns (?g2, sols1)"
      using True s by simp
    then show ?thesis using n1 n2 by simp
  qed
qed

lemma solve_count_mono: "length (snd st) \<le> length (snd (solve ms st))"
  using solve_appends(1)[of ms st] by auto

lemma try_digits_count_mono: "length (snd st) \<le> length (snd (try_digits ms y0 x0 ns st))"
  using solve_appends(2)[of ms y0 x0 ns st] by auto

lemma put_put_zero:
  "(y, x) \<in> set (zero_cells g) \<Longrightarrow> put (put g y x n) y x 0 = g"
proof -
  assume "(y, x) \<in> set (zero_cells g)"
  then have y: "y < length g" and z: "g ! y ! x = 0"
    by (auto simp: set_zero_cells)
  have "(g ! y)[x := 0] = g ! y"
    using list_update_id[of "g ! y" x] z by simp
  then show ?thesis using y by (simp add: put_def)
qed

lemma solve_restores:
  "below (length (snd (solve ms st))) ms \<Longrightarrow> fst (solve ms st) = fst st"
  "below (length (snd (try_digits ms y0 x0 ns st))) ms \<Longrightarrow>
     (y0, x0) \<in> set (zero_cells (fst st)) \<Longrightarrow> fst (try_digits ms y0 x0 ns st) = fst st"
proof (induction ms st and ms y0 x0 ns st rule: solve_try_digits.induct)
  case (1 ms g sols)
  show ?case
  proof (cases "zero_cells g")
    case Nil
    then show ?thesis by (simp add: solve.simps)
  next
    case (Cons p rest)
    obtain y x where p: "p = (y, x)" by (cases p)
    have mem: "(y, x) \<in> set (zero_cells (fst (g, sols)))" using Cons p by simp
    have eq: "solve ms (g, sols) = try_digits ms y x [1..9] (g, sols)"
      using Cons p by (simp add: solve.simps)
    show ?thesis using 1(1)[OF Cons p[symmetric] _ mem] 1(2) unfolding eq by simp
  qed
next
  case (2 ms y0 x0 st)
  show ?case by simp
next
  case (3 ms y0 x0 n ns g sols)
  show ?case
  proof (cases "possible g y0 x0 n")
    case False
    with 3(3)[OF False] 3(4,5) show ?thesis by simp
  next
    case True
    obtain g1 sols1 where s: "solve ms (put g y0 x0 n, sols) = (g1, sols1)"
      by (cases "solve ms (put g y0 x0 n, sols)")
    let ?g2 = "if below (length sols1) ms then put g1 y0 x0 0 else g1"
    have eq: "try_digits ms y0 x0 (n # ns) (g, sols) = try_digits ms y0 x0 ns (?g2, sols1)"
      using True s by simp
    have fin: "below (length (snd (try_digits ms y0 x0 ns (?g2, sols1)))) ms"
      using 3(4) unfolding eq .
    have b1: "below (length sols1) ms"
      using below_mono[OF fin try_digits_count_mono[of "(?g2, sols1)" ms y0 x0 ns]] by simp
    have "g1 = put g y0 x0 n" using 3(1)[OF True] s b1 by simp
    then have g2: "?g2 = g" using b1 3(5) by (simp add: put_put_zero)
    have "fst (try_digits ms y0 x0 ns (?g2, sols1)) = fst (?g2, sols1)"
      using 3(2)[OF True s[symmetric] fin] g2 3(5) by simp
    then show ?thesis unfolding eq using g2 by simp
  qed
qed

lemma solve_zeros:
  "set (zero_cells (fst (solve ms st))) \<subseteq> set (zero_cells (fst st))"
  "insert (y0, x0) (set (zero_cells (fst (try_digits ms y0 x0 ns st))))
       \<subseteq> insert (y0, x0) (set (zero_cells (fst st)))"
proof (induction ms st and ms y0 x0 ns st rule: solve_try_digits.induct)
  case (1 ms g sols)
  show ?case
  proof (cases "zero_cells g")
    case Nil
    then show ?thesis by (simp add: solve.simps)
  next
    case (Cons p rest)
    obtain y x where p: "p = (y, x)" by (cases p)
    have mem: "(y, x) \<in> set (zero_cells g)" using Cons p by simp
    from 1[OF Cons p[symmetric]] mem
    show ?thesis using Cons p by (auto simp: solve.simps)
  qed
next
  case (2 ms y0 x0 st)
  show ?case by simp
next
  case (3 ms y0 x0 n ns g sols)
  show ?case
  proof (cases "possible g y0 x0 n")
    case False
    with 3(3) show ?thesis by simp
  next
    case True
    obtain g1 sols1 where s: "solve ms (put g y0 x0 n, sols) = (g1, sols1)"
      by (cases "solve ms (put g y0 x0 n, sols)")
    let ?g2 = "if below (length sols1) ms then put g1 y0 x0 0 else g1"
    have a: "set (zero_cells g1) \<subseteq> set (zero_cells (put g y0 x0 n))"
      using 3(1)[OF True] s by simp
    have b: "set (zero_cells g1) \<subseteq> insert (y0, x0) (set (zero_cells g))"
      using a zero_cells_put_subset[of g y0 x0 n] by blast
    have c: "insert (y0, x0) (set (zero_cells ?g2)) \<subseteq> insert (y0, x0) (set (zero_cells g))"
      using b zero_cells_put_subset[of g1 y0 x0 0] by auto
    have d: "insert (y0, x0) (set (zero_cells (fst (try_digits ms y0 x0 ns (?g2, sols1)))))
               \<subseteq> insert (y0, x0) (set (zero_cells ?g2))"
      using 3(2)[OF True s[symmetric]] by simp
    have "try_digits ms y0 x0 (n # ns) (g, sols) = try_digits ms y0 x0 ns (?g2, sols1)"
      using True s by simp
    with c d show ?thesis by auto
  qed
qed

text \<open>Once the count has reached the limit, the rest of a frame's loop empties no cell.\<close>

lemma try_digits_frozen:
  "\<not> below (length sols) ms \<Longrightarrow> 0 \<notin> set ns \<Longrightarrow>
   set (zero_cells (fst (try_digits ms y0 x0 ns (g, sols)))) \<subseteq> set (zero_cells g)"
proof (induction ns arbitrary: g sols)
  case Nil
  show ?case by simp
next
  case (Cons n ns)
  show ?case
  proof (cases "possible g y0 x0 n")
    case False
    then show ?thesis using Cons by simp
  next
    case True
    obtain g1 sols1 where s: "solve ms (put g y0 x0 n, sols) = (g1, sols1)"
      by (cases "solve ms (put g y0 x0 n, sols)")
    have le: "length sols \<le> length sols1"
      using solve_count_mono[of "(put g y0 x0 n, sols)" ms] s by simp
    have nb: "\<not> below (length sols1) ms"
      using Cons.prems(1) below_mono[OF _ le] by blast
    have eq: "try_digits ms y0 x0 (n # ns) (g, sols) = try_digits ms y0 x0 ns (g1, sols1)"
      using True s nb by simp
    have "set (zero_cells g1) \<subseteq> set (zero_cells (put g y0 x0 n))"
      using solve_zeros(1)[of ms "(put g y0 x0 n, sols)"] s by simp
    also have "\<dots> \<subseteq> set (zero_cells g)"
      using zero_cells_put_nonzero[of n g y0 x0] Cons.prems(2) by auto
    finally have a: "set (zero_cells g1) \<subseteq> set (zero_cells g)" .
    have "set (zero_cells (fst (try_digits ms y0 x0 ns (g1, sols1)))) \<subseteq> set (zero_cells g1)"
      using Cons.IH[OF nb] Cons.prems(2) by simp
    then show ?thesis unfolding eq using a by blast
  qed
qed

section \<open>Undoing a placement\<close>

text \<open>
  C2. One pass of the loop body in a frame whose cell is \<open>(y0, x0)\<close>, for a digit \<open>n\<close>
  that may be placed: after the recursive call has returned with \<open>sols1\<close>, the cell is 0
  again if and only if \<open>len(sols1) < max_solutions\<close> (the cell is reset in the grid the
  call left). Otherwise the grid is the one the call left, the cell still holds \<open>n\<close>, and
  from that state on the loop of a frame, whatever its cell and the digits that remain,
  empties no cell.
\<close>

theorem placement_reset_iff:
  assumes "possible g y0 x0 n" and "n \<noteq> 0" and "y0 < length g" and "x0 < length (g ! y0)"
    and "solve ms (put g y0 x0 n, sols) = (g1, sols1)"
  shows "try_digits ms y0 x0 [n] (g, sols)
           = (if below (length sols1) ms then put g1 y0 x0 0 else g1, sols1) \<and>
         (fst (try_digits ms y0 x0 [n] (g, sols)) ! y0 ! x0 = 0 \<longleftrightarrow> below (length sols1) ms) \<and>
         (\<not> below (length sols1) ms \<longrightarrow>
            fst (try_digits ms y0 x0 [n] (g, sols)) = g1 \<and> g1 ! y0 ! x0 = n \<and>
            (\<forall>y x ns. 0 \<notin> set ns \<longrightarrow>
               set (zero_cells (fst (try_digits ms y x ns (g1, sols1)))) \<subseteq> set (zero_cells g1)))"
proof -
  have eq: "try_digits ms y0 x0 [n] (g, sols)
           = (if below (length sols1) ms then put g1 y0 x0 0 else g1, sols1)"
    using assms(1,5) by simp
  have k: "keeps (put g y0 x0 n) g1"
    using solve_keeps_cells(1)[of "(put g y0 x0 n, sols)" ms] assms(5) by simp
  have len: "length g1 = length g" "length (g1 ! y0) = length (g ! y0)"
    using k assms(3) by (auto simp: keeps_def)
  have "put g y0 x0 n ! y0 ! x0 = n" using assms(3,4) by (simp add: put_nth)
  then have g1n: "g1 ! y0 ! x0 = n"
    using k assms(2,3,4) by (auto simp: keeps_def)
  have z: "put g1 y0 x0 0 ! y0 ! x0 = 0"
    using len assms(3,4) by (simp add: put_nth)
  show ?thesis
    unfolding eq using g1n z assms(2) try_digits_frozen[of sols1 ms _ _ _ g1] by auto
qed

theorem placement_reset_iff_witness:
  "possible one_hole 0 0 2 \<and>
   fst (try_digits (Limit 1) 0 0 [2] (one_hole, [])) ! 0 ! 0 = 2 \<and>
   fst (try_digits Unbounded 0 0 [2] (one_hole, [])) ! 0 ! 0 = 0"
proof -
  have p: "possible one_hole 0 0 2" by code_simp
  have n: "(2::int) \<noteq> 0" by simp
  have l: "(0::nat) < length one_hole" "(0::nat) < length (one_hole ! 0)"
    by (simp_all add: one_hole_def)
  have s1: "solve (Limit 1) (put one_hole 0 0 2, []) = (put one_hole 0 0 2, [put one_hole 0 0 2])"
    by code_simp
  have s2: "solve Unbounded (put one_hole 0 0 2, []) = (put one_hole 0 0 2, [put one_hole 0 0 2])"
    by code_simp
  have "\<not> below (length [put one_hole 0 0 2]) (Limit 1) \<longrightarrow>
          fst (try_digits (Limit 1) 0 0 [2] (one_hole, [])) = put one_hole 0 0 2 \<and>
          put one_hole 0 0 2 ! 0 ! 0 = 2"
    using placement_reset_iff[OF p n l s1] by blast
  then have a: "fst (try_digits (Limit 1) 0 0 [2] (one_hole, [])) ! 0 ! 0 = 2"
    by (simp del: try_digits.simps)
  have "fst (try_digits Unbounded 0 0 [2] (one_hole, [])) ! 0 ! 0 = 0
          \<longleftrightarrow> below (length [put one_hole 0 0 2]) Unbounded"
    using placement_reset_iff[OF p n l s2] by blast
  then have b: "fst (try_digits Unbounded 0 0 [2] (one_hole, [])) ! 0 ! 0 = 0"
    by (simp del: try_digits.simps)
  show ?thesis using p a b by (simp del: try_digits.simps)
qed

text \<open>
  C10. When a call of \<open>solve\<close> returns with fewer recorded solutions than
  \<open>max_solutions\<close>, the grid is the one it was given. (An empty result is such a case for
  every positive limit and for \<open>'max'\<close>.)
\<close>

theorem solve_restores_grid:
  assumes "solve ms (g, sols) = (g', sols')" and "below (length sols') ms"
  shows "g' = g"
  using solve_restores(1)[of ms "(g, sols)"] assms by simp

text \<open>
  On the grid of ones with one empty cell the search places the digits 2 to 9 in turn and
  records a grid each time. With no limit, and with the limit 9, the count 8 stays below
  the limit, every placement is undone, and the grid comes back with its cell empty.
\<close>

theorem solve_restores_grid_witness:
  "length (snd (solve Unbounded (one_hole, []))) = 8 \<and>
   hd (snd (solve Unbounded (one_hole, []))) = put one_hole 0 0 2 \<and>
   below (length (snd (solve Unbounded (one_hole, [])))) Unbounded \<and>
   fst (solve Unbounded (one_hole, [])) = one_hole \<and>
   length (snd (solve (Limit 9) (one_hole, []))) = 8 \<and>
   below (length (snd (solve (Limit 9) (one_hole, [])))) (Limit 9) \<and>
   fst (solve (Limit 9) (one_hole, [])) = one_hole"
proof -
  have l1: "length (snd (solve Unbounded (one_hole, []))) = 8" by code_simp
  have h1: "hd (snd (solve Unbounded (one_hole, []))) = put one_hole 0 0 2" by code_simp
  have b1: "below (length (snd (solve Unbounded (one_hole, [])))) Unbounded" by simp
  have l2: "length (snd (solve (Limit 9) (one_hole, []))) = 8" by code_simp
  have b2: "below (length (snd (solve (Limit 9) (one_hole, [])))) (Limit 9)"
    unfolding l2 by simp
  have r1: "fst (solve Unbounded (one_hole, [])) = one_hole"
    by (rule solve_restores_grid[OF prod.collapse[symmetric] b1])
  have r2: "fst (solve (Limit 9) (one_hole, [])) = one_hole"
    by (rule solve_restores_grid[OF prod.collapse[symmetric] b2])
  show ?thesis using l1 h1 b1 l2 b2 r1 r2 by blast
qed

section \<open>The recursion tree\<close>

text \<open>
  \<open>solve\<close> is a total function: its termination proof above shows that the empty cells
  decrease along every recursive call. To state the bounds of the recursion, \<open>loop_calls\<close>
  walks the loop of a frame exactly as \<open>try_digits\<close> does and lists the states on which
  the loop calls \<open>solve\<close>; \<open>frame_calls\<close> lists the recursive calls made by the frame
  \<open>solve ms st\<close>.
\<close>

fun loop_calls :: "max_solutions \<Rightarrow> nat \<Rightarrow> nat \<Rightarrow> int list \<Rightarrow> grid \<times> grid list \<Rightarrow> (grid \<times> grid list) list" where
  "loop_calls ms y0 x0 [] st = []"
| "loop_calls ms y0 x0 (n # ns) (g, sols) =
     (if possible g y0 x0 n then
        (put g y0 x0 n, sols) #
        (case solve ms (put g y0 x0 n, sols) of
           (g1, sols1) \<Rightarrow>
             loop_calls ms y0 x0 ns
               (if below (length sols1) ms then put g1 y0 x0 0 else g1, sols1))
      else loop_calls ms y0 x0 ns (g, sols))"

definition frame_calls :: "max_solutions \<Rightarrow> grid \<times> grid list \<Rightarrow> (grid \<times> grid list) list" where
  "frame_calls ms st =
     (case zero_cells (fst st) of
        [] \<Rightarrow> []
      | (y0, x0) # _ \<Rightarrow> loop_calls ms y0 x0 [1..9] st)"

definition empty_count :: "grid \<Rightarrow> nat" where
  "empty_count g = length (zero_cells g)"

lemma distinct_pairs:
  "distinct ys \<Longrightarrow> (\<And>y. distinct (f y)) \<Longrightarrow>
   distinct (concat (map (\<lambda>y. map (\<lambda>x. (y, x)) (f y)) ys))"
  by (induction ys) (auto simp: distinct_map inj_on_def)

lemma distinct_zero_cells: "distinct (zero_cells g)"
  unfolding zero_cells_def by (rule distinct_pairs) simp_all

lemma empty_count_card: "empty_count g = card (set (zero_cells g))"
  by (simp add: empty_count_def distinct_card[OF distinct_zero_cells])

lemma loop_calls_length: "length (loop_calls ms y0 x0 ns st) \<le> length ns"
proof (induction ns arbitrary: st)
  case Nil
  show ?case by simp
next
  case (Cons n ns)
  obtain g sols where st: "st = (g, sols)" by (cases st)
  show ?case
  proof (cases "possible g y0 x0 n")
    case True
    obtain g1 sols1 where s: "solve ms (put g y0 x0 n, sols) = (g1, sols1)"
      by (cases "solve ms (put g y0 x0 n, sols)")
    show ?thesis using True s st Cons.IH[of "(if below (length sols1) ms then put g1 y0 x0 0 else g1, sols1)"]
      by simp
  next
    case False
    then show ?thesis using st Cons.IH[of "(g, sols)"] by simp
  qed
qed

lemma loop_calls_zeros:
  "0 \<notin> set ns \<Longrightarrow> c \<in> set (loop_calls ms y0 x0 ns (g, sols)) \<Longrightarrow>
   set (zero_cells (fst c)) \<subseteq> insert (y0, x0) (set (zero_cells g)) - {(y0, x0)}"
proof (induction ns arbitrary: g sols)
  case Nil
  then show ?case by simp
next
  case (Cons n ns)
  have n0: "n \<noteq> 0" and ns0: "0 \<notin> set ns" using Cons.prems(1) by auto
  show ?case
  proof (cases "possible g y0 x0 n")
    case False
    then have "c \<in> set (loop_calls ms y0 x0 ns (g, sols))" using Cons.prems(2) by simp
    from Cons.IH[OF ns0 this] show ?thesis .
  next
    case True
    obtain g1 sols1 where s: "solve ms (put g y0 x0 n, sols) = (g1, sols1)"
      by (cases "solve ms (put g y0 x0 n, sols)")
    let ?g2 = "if below (length sols1) ms then put g1 y0 x0 0 else g1"
    have first: "set (zero_cells (put g y0 x0 n)) \<subseteq> insert (y0, x0) (set (zero_cells g)) - {(y0, x0)}"
      using zero_cells_put_nonzero[OF n0, of g y0 x0] by auto
    have g1: "set (zero_cells g1) \<subseteq> set (zero_cells (put g y0 x0 n))"
      using solve_zeros(1)[of ms "(put g y0 x0 n, sols)"] s by simp
    have g2: "insert (y0, x0) (set (zero_cells ?g2)) \<subseteq> insert (y0, x0) (set (zero_cells g))"
      using g1 first zero_cells_put_subset[of g1 y0 x0 0] by auto
    from Cons.prems(2) True s
    consider "c = (put g y0 x0 n, sols)" | "c \<in> set (loop_calls ms y0 x0 ns (?g2, sols1))"
      by auto
    then show ?thesis
    proof cases
      case 1
      then show ?thesis using first by simp
    next
      case 2
      from Cons.IH[OF ns0 2] g2 show ?thesis by auto
    qed
  qed
qed

lemma frame_calls_fewer:
  assumes "c \<in> set (frame_calls ms (g, sols))"
  shows "empty_count (fst c) < empty_count g"
proof (cases "zero_cells g")
  case Nil
  then show ?thesis using assms by (simp add: frame_calls_def)
next
  case (Cons p rest)
  obtain y x where p: "p = (y, x)" by (cases p)
  have mem: "(y, x) \<in> set (zero_cells g)" using Cons p by simp
  have c: "c \<in> set (loop_calls ms y x [1..9] (g, sols))"
    using assms Cons p by (simp add: frame_calls_def)
  have "set (zero_cells (fst c)) \<subseteq> insert (y, x) (set (zero_cells g)) - {(y, x)}"
    by (rule loop_calls_zeros[OF _ c]) simp
  then have "set (zero_cells (fst c)) \<subset> set (zero_cells g)" using mem by auto
  then show ?thesis unfolding empty_count_card by (intro psubset_card_mono) auto
qed

lemma frame_calls_length: "length (frame_calls ms st) \<le> 9"
proof (cases "zero_cells (fst st)")
  case Nil
  then show ?thesis by (simp add: frame_calls_def)
next
  case (Cons p rest)
  obtain y x where p: "p = (y, x)" by (cases p)
  have "length [1..9::int] = 9" by simp
  then show ?thesis
    using Cons p loop_calls_length[of ms y x "[1..9]" st] by (simp add: frame_calls_def)
qed

lemma empty_count_le_81: "grid9 g \<Longrightarrow> empty_count g \<le> 81"
proof -
  assume g: "grid9 g"
  have "set (zero_cells g) \<subseteq> {..<9} \<times> {..<9}"
    using g by (auto simp: set_zero_cells grid9_def)
  then have "card (set (zero_cells g)) \<le> card ({..<9::nat} \<times> {..<9::nat})"
    by (intro card_mono) auto
  then show ?thesis by (simp add: empty_count_card)
qed

lemma chain_depth:
  "((\<lambda>a b. b \<in> set (frame_calls ms a)) ^^ k) st st' \<Longrightarrow>
   empty_count (fst st') + k \<le> empty_count (fst st)"
proof (induction k arbitrary: st')
  case 0
  then show ?case by simp
next
  case (Suc k)
  then obtain m where m: "((\<lambda>a b. b \<in> set (frame_calls ms a)) ^^ k) st m"
    and c: "st' \<in> set (frame_calls ms m)" by auto
  have "empty_count (fst st') < empty_count (fst m)"
    using frame_calls_fewer[of st' ms "fst m" "snd m"] c by simp
  with Suc.IH[OF m] show ?case by simp
qed

text \<open>
  The calls listed are the calls the frame makes: the solutions a frame returns are those
  returned by the last call of its list, and a frame that makes no call returns the list
  it was given (with the grid appended when the grid has no empty cell).
\<close>

lemma loop_result_from_calls:
  "snd (try_digits ms y0 x0 ns st)
     = (case loop_calls ms y0 x0 ns st of [] \<Rightarrow> snd st | c # cs \<Rightarrow> snd (solve ms (last (c # cs))))"
proof (induction ns arbitrary: st)
  case Nil
  show ?case by simp
next
  case (Cons n ns)
  obtain g sols where st: "st = (g, sols)" by (cases st)
  show ?case
  proof (cases "possible g y0 x0 n")
    case False
    then show ?thesis using Cons.IH[of "(g, sols)"] st by (simp split: list.split)
  next
    case True
    obtain g1 sols1 where s: "solve ms (put g y0 x0 n, sols) = (g1, sols1)"
      by (cases "solve ms (put g y0 x0 n, sols)")
    let ?st2 = "(if below (length sols1) ms then put g1 y0 x0 0 else g1, sols1)"
    have t: "try_digits ms y0 x0 (n # ns) st = try_digits ms y0 x0 ns ?st2"
      using True s st by simp
    have l: "loop_calls ms y0 x0 (n # ns) st = (put g y0 x0 n, sols) # loop_calls ms y0 x0 ns ?st2"
      using True s st by simp
    show ?thesis
      unfolding t l using Cons.IH[of ?st2] s
      by (cases "loop_calls ms y0 x0 ns ?st2") simp_all
  qed
qed

lemma frame_result_from_calls:
  "snd (solve ms (g, sols))
     = (case frame_calls ms (g, sols) of
          [] \<Rightarrow> (if zero_cells g = [] then sols @ [g] else sols)
        | c # cs \<Rightarrow> snd (solve ms (last (c # cs))))"
proof (cases "zero_cells g")
  case Nil
  then show ?thesis by (simp add: solve.simps frame_calls_def)
next
  case (Cons p rest)
  obtain y x where p: "p = (y, x)" by (cases p)
  show ?thesis
    using Cons p loop_result_from_calls[of ms y x "[1..9]" "(g, sols)"]
    by (simp add: solve.simps frame_calls_def del: upto.simps split: list.split)
qed

text \<open>
  C8. For a 9x9 grid, any limit and any solution list: the call returns; every recursive
  call a frame makes is on a grid with fewer empty cells than the frame was given; a frame
  makes at most 9 recursive calls; and every chain of nested calls has at most 81 links.
\<close>

theorem solve_recursion_bounded:
  assumes "grid9 g"
  shows "(\<exists>r. solve ms (g, sols) = r) \<and>
         (\<forall>c \<in> set (frame_calls ms (g, sols)). empty_count (fst c) < empty_count g) \<and>
         length (frame_calls ms (g, sols)) \<le> 9 \<and>
         (\<forall>k st'. ((\<lambda>a b. b \<in> set (frame_calls ms a)) ^^ k) (g, sols) st' \<longrightarrow> k \<le> 81)"
proof -
  have "k \<le> 81" if "((\<lambda>a b. b \<in> set (frame_calls ms a)) ^^ k) (g, sols) st'" for k st'
    using chain_depth[OF that] empty_count_le_81[OF assms] by simp
  then show ?thesis using frame_calls_fewer[of _ ms g sols] frame_calls_length[of ms "(g, sols)"]
    by blast
qed

theorem solve_recursion_bounded_witness:
  "grid9 one_hole \<and> length (frame_calls (Limit 1) (one_hole, [])) \<le> 9 \<and>
   empty_count (put one_hole 0 0 2) < empty_count one_hole"
proof -
  have g: "grid9 one_hole" by (simp add: grid9_def one_hole_def)
  have c: "(put one_hole 0 0 2, []) \<in> set (frame_calls (Limit 1) (one_hole, []))"
    by code_simp
  have "\<forall>c \<in> set (frame_calls (Limit 1) (one_hole, [])). empty_count (fst c) < empty_count one_hole"
    using solve_recursion_bounded[OF g, of "Limit 1" "[]"] by blast
  then have "empty_count (put one_hole 0 0 2) < empty_count one_hole"
    using c by fastforce
  moreover have "length (frame_calls (Limit 1) (one_hole, [])) \<le> 9"
    using solve_recursion_bounded[OF g, of "Limit 1" "[]"] by blast
  ultimately show ?thesis using g by simp
qed

section \<open>Rows, columns and boxes\<close>

lemma set_numbers_eq: "set_numbers = {1..9}"
proof -
  have "[0..9] = 0 # [1..9]" by (simp add: upto_rec1)
  then show ?thesis
    unfolding set_numbers_def list_numbers_def valid_numbers_def by simp
qed

definition row_values :: "grid \<Rightarrow> nat \<Rightarrow> int set" where
  "row_values g y = (\<lambda>x. g ! y ! x) ` {..<9}"

definition col_values :: "grid \<Rightarrow> nat \<Rightarrow> int set" where
  "col_values g x = (\<lambda>y. g ! y ! x) ` {..<9}"

definition box_values :: "grid \<Rightarrow> nat \<Rightarrow> nat \<Rightarrow> int set" where
  "box_values g y0 x0 = (\<lambda>(i, j). g ! (y0 + i) ! (x0 + j)) ` ({..<3} \<times> {..<3})"

lemma grid9_row: "grid9 g \<Longrightarrow> y < 9 \<Longrightarrow> length (g ! y) = 9"
  by (simp add: grid9_def)

lemma set_take_drop:
  "a + k \<le> length xs \<Longrightarrow> set (take k (drop a xs)) = (\<lambda>i. xs ! (a + i)) ` {..<k}"
proof -
  assume h: "a + k \<le> length xs"
  then have "k \<le> length (drop a xs)" by simp
  from nth_image[OF this] have "set (take k (drop a xs)) = nth (drop a xs) ` {0..<k}"
    by (rule sym)
  also have "\<dots> = (\<lambda>i. xs ! (a + i)) ` {..<k}"
    using h by (auto simp: image_iff)
  finally show ?thesis .
qed

lemma set_all: "set xs = (\<lambda>i. xs ! i) ` {..<length xs}"
  using set_take_drop[of 0 "length xs" xs] by simp

lemma set_row: "grid9 g \<Longrightarrow> y < 9 \<Longrightarrow> set (g ! y) = row_values g y"
  using set_all[of "g ! y"] by (simp add: row_values_def grid9_row)

lemma set_col: "grid9 g \<Longrightarrow> set (map (\<lambda>r. r ! x) g) = col_values g x"
  using set_all[of g] by (simp add: col_values_def grid9_def image_image)

lemma set_box:
  assumes "grid9 g" "y0 + 3 \<le> 9" "x0 + 3 \<le> 9"
  shows "set (concat (map (\<lambda>r. take 3 (drop x0 r)) (take 3 (drop y0 g)))) = box_values g y0 x0"
proof -
  have len: "length g = 9" using assms by (simp add: grid9_def)
  have rows: "set (take 3 (drop y0 g)) = (\<lambda>i. g ! (y0 + i)) ` {..<3}"
    using assms(2) len by (simp add: set_take_drop)
  have cells: "set (take 3 (drop x0 (g ! (y0 + i)))) = (\<lambda>j. g ! (y0 + i) ! (x0 + j)) ` {..<3}"
    if "i < 3" for i
  proof -
    have "length (g ! (y0 + i)) = 9" using assms that by (simp add: grid9_row)
    then show ?thesis using assms(3) by (simp add: set_take_drop)
  qed
  show ?thesis
    unfolding box_values_def set_concat set_map rows
    using cells by (auto simp: image_iff) 
qed

lemma transpose9: "grid9 g \<Longrightarrow> transpose g = map (\<lambda>x. map (\<lambda>r. r ! x) g) [0..<9]"
proof -
  assume g: "grid9 g"
  have "transpose g = map (\<lambda>i. map (\<lambda>j. g ! j ! i) [0..<length g]) [0..<9]"
    using g by (intro transpose_rectangle) (auto simp: grid9_def)
  moreover have "map (\<lambda>j. g ! j ! i) [0..<length g] = map (\<lambda>r. r ! i) g" for i
    by (rule nth_equalityI) simp_all
  ultimately show ?thesis by simp
qed

lemma drop6_rows:
  assumes "grid9 g" "set rs \<subseteq> set g"
  shows "map (drop 6) rs = map (\<lambda>r. take 3 (drop 6 r)) rs"
  using assms by (intro map_cong) (auto simp: grid9_def)

lemma take3_rows: "map (take 3) rs = map (\<lambda>r. take 3 (drop 0 r)) rs"
  by simp

lemma drop6_grid: "grid9 g \<Longrightarrow> drop 6 g = take 3 (drop 6 g)"
  by (simp add: grid9_def)

lemma take3_grid: "take 3 g = take 3 (drop 0 g)"
  by simp

lemma all_less3: "(\<forall>b<3::nat. P b) \<longleftrightarrow> P 0 \<and> P 1 \<and> P 2"
proof -
  have "{..<3::nat} = {0, 1, 2}" by auto
  then have "(\<forall>b<3::nat. P b) \<longleftrightarrow> (\<forall>b \<in> {0, 1, 2}. P b)" by (metis lessThan_iff)
  then show ?thesis by simp
qed

lemma check_boxes:
  assumes g: "grid9 g"
  shows "set (concat (map (take 3) (take 3 g))) = box_values g 0 0"
    "set (concat (map (\<lambda>r. take 3 (drop 3 r)) (take 3 g))) = box_values g 0 3"
    "set (concat (map (drop 6) (take 3 g))) = box_values g 0 6"
    "set (concat (map (take 3) (take 3 (drop 3 g)))) = box_values g 3 0"
    "set (concat (map (\<lambda>r. take 3 (drop 3 r)) (take 3 (drop 3 g)))) = box_values g 3 3"
    "set (concat (map (drop 6) (take 3 (drop 3 g)))) = box_values g 3 6"
    "set (concat (map (take 3) (drop 6 g))) = box_values g 6 0"
    "set (concat (map (\<lambda>r. take 3 (drop 3 r)) (drop 6 g))) = box_values g 6 3"
    "set (concat (map (drop 6) (drop 6 g))) = box_values g 6 6"
proof -
  have d: "map (drop 6) (take 3 (drop a g)) = map (\<lambda>r. take 3 (drop 6 r)) (take 3 (drop a g))" for a
    by (rule drop6_rows[OF g]) (meson set_take_subset set_drop_subset subset_trans)
  have d0: "map (drop 6) (take 3 g) = map (\<lambda>r. take 3 (drop 6 r)) (take 3 g)"
    by (rule drop6_rows[OF g]) (rule set_take_subset)
  show "set (concat (map (take 3) (take 3 g))) = box_values g 0 0"
    using set_box[OF g, of 0 0] by simp
  show "set (concat (map (\<lambda>r. take 3 (drop 3 r)) (take 3 g))) = box_values g 0 3"
    using set_box[OF g, of 0 3] by simp
  show "set (concat (map (drop 6) (take 3 g))) = box_values g 0 6"
    using set_box[OF g, of 0 6] by (simp add: d0)
  show "set (concat (map (take 3) (take 3 (drop 3 g)))) = box_values g 3 0"
    using set_box[OF g, of 3 0] by simp
  show "set (concat (map (\<lambda>r. take 3 (drop 3 r)) (take 3 (drop 3 g)))) = box_values g 3 3"
    using set_box[OF g, of 3 3] by simp
  show "set (concat (map (drop 6) (take 3 (drop 3 g)))) = box_values g 3 6"
    using set_box[OF g, of 3 6] by (simp add: d)
  show "set (concat (map (take 3) (drop 6 g))) = box_values g 6 0"
    using set_box[OF g, of 6 0] drop6_grid[OF g] by simp
  show "set (concat (map (\<lambda>r. take 3 (drop 3 r)) (drop 6 g))) = box_values g 6 3"
    using set_box[OF g, of 6 3] drop6_grid[OF g] by simp
  show "set (concat (map (drop 6) (drop 6 g))) = box_values g 6 6"
    using set_box[OF g, of 6 6] drop6_grid[OF g] d[of 6] by simp
qed

lemma check_rows:
  assumes g: "grid9 g"
  shows "list_all (\<lambda>r. set r = S) g \<longleftrightarrow> (\<forall>y<9. row_values g y = S)"
proof -
  have "list_all (\<lambda>r. set r = S) g \<longleftrightarrow> (\<forall>y<9. set (g ! y) = S)"
    using g by (simp add: list_all_length grid9_def)
  then show ?thesis using g by (simp add: set_row)
qed

lemma check_cols:
  assumes g: "grid9 g"
  shows "list_all (\<lambda>r. set r = S) (transpose g) \<longleftrightarrow> (\<forall>x<9. col_values g x = S)"
proof -
  have "list_all (\<lambda>r. set r = S) (transpose g) \<longleftrightarrow> (\<forall>x<9. set (map (\<lambda>r. r ! x) g) = S)"
    unfolding transpose9[OF g] by (simp add: list_all_length)
  then show ?thesis using set_col[OF g] by simp
qed

lemma check_sudoku_by_region:
  assumes g: "grid9 g"
  shows "check_sudoku g \<longleftrightarrow>
           (\<forall>y<9. row_values g y = {1..9}) \<and>
           (\<forall>x<9. col_values g x = {1..9}) \<and>
           (\<forall>by<3. \<forall>bx<3. box_values g (3 * by) (3 * bx) = {1..9})"
  unfolding check_sudoku_def Let_def check_boxes[OF g] check_rows[OF g] check_cols[OF g]
    set_numbers_eq all_less3
  by simp

section \<open>The placement test\<close>

lemma possible_values:
  assumes "grid9 g" and "y < 9" and "x < 9"
  shows "possible g y x n \<longleftrightarrow>
           n \<notin> row_values g y \<and> n \<notin> col_values g x \<and>
           n \<notin> box_values g (y div 3 * 3) (x div 3 * 3)"
proof -
  have b: "y div 3 * 3 + 3 \<le> 9" "x div 3 * 3 + 3 \<le> 9"
    using assms(2,3) by auto
  show ?thesis
    unfolding possible_def Let_def set_row[OF assms(1,2)] set_col[OF assms(1)]
      set_box[OF assms(1) b]
    by (simp split: if_splits)
qed

text \<open>
  C4. On a 9x9 grid, for a row \<open>y\<close> and a column \<open>x\<close> of the grid and any digit \<open>n\<close>,
  \<open>possible\<close> is false exactly when \<open>n\<close> occurs in row \<open>y\<close>, in column \<open>x\<close>, or in the
  3x3 box with origin \<open>(y div 3 * 3, x div 3 * 3)\<close>; otherwise it is true.
\<close>

theorem possible_iff:
  assumes "grid9 g" and "y < 9" and "x < 9"
  shows "\<not> possible g y x n \<longleftrightarrow>
           (\<exists>x'<9. g ! y ! x' = n) \<or> (\<exists>y'<9. g ! y' ! x = n) \<or>
           (\<exists>i<3. \<exists>j<3. g ! (y div 3 * 3 + i) ! (x div 3 * 3 + j) = n)"
proof -
  have "\<not> possible g y x n \<longleftrightarrow>
          n \<in> row_values g y \<or> n \<in> col_values g x \<or>
          n \<in> box_values g (y div 3 * 3) (x div 3 * 3)"
    using possible_values[OF assms, of n] by blast
  also have "n \<in> row_values g y \<longleftrightarrow> (\<exists>x'<9. g ! y ! x' = n)"
    by (auto simp: row_values_def)
  also have "n \<in> col_values g x \<longleftrightarrow> (\<exists>y'<9. g ! y' ! x = n)"
    by (auto simp: col_values_def)
  also have "n \<in> box_values g (y div 3 * 3) (x div 3 * 3) \<longleftrightarrow>
        (\<exists>i<3. \<exists>j<3. g ! (y div 3 * 3 + i) ! (x div 3 * 3 + j) = n)"
    by (auto simp: box_values_def)
  finally show ?thesis .
qed

theorem possible_iff_witness:
  "grid9 all_ones \<and> (0::nat) < 9 \<and> \<not> possible all_ones 0 0 1 \<and> possible all_ones 0 0 2"
proof -
  have g: "grid9 all_ones" by (simp add: grid9_def all_ones_def)
  have c: "all_ones ! y ! x = 1" if "y < 9" "x < 9" for y x
    using that by (simp add: all_ones_def)
  have "\<not> possible all_ones 0 0 1"
    using possible_iff[OF g, of 0 0 1] c[of 0 0] by auto
  moreover have "possible all_ones 0 0 2"
    using possible_iff[OF g, of 0 0 2] c by auto
  ultimately show ?thesis using g by simp
qed

section \<open>The check of a loaded array\<close>

text \<open>
  C3, as the code has it. \<open>valid_sudoku\<close> drops every dimension of size 1 before it
  compares the shape with 9x9: it holds exactly when the shape without its 1s is
  \<open>(9, 9)\<close> and every element lies in \<open>{0, ..., 9}\<close>.
\<close>

theorem valid_sudoku_iff:
  "valid_sudoku a \<longleftrightarrow>
     filter (\<lambda>v. v \<noteq> 1) (shape a) = [9, 9] \<and> (\<forall>v \<in> set (data a). 0 \<le> v \<and> v \<le> 9)"
proof -
  have a: "(length xs = 2 \<and> xs ! 0 = xs ! 1 \<and> xs ! 1 = 9) \<longleftrightarrow> xs = [9, 9]" for xs :: "nat list"
      by (cases xs; cases "tl xs") auto
  show ?thesis
    unfolding valid_sudoku_def Let_def a list_all_iff valid_numbers_def by simp
qed

theorem valid_sudoku_iff_witness:
  "valid_sudoku \<lparr>shape = [1, 9, 9], data = replicate 81 5\<rparr> \<and>
   \<not> valid_sudoku \<lparr>shape = [9, 9], data = replicate 81 10\<rparr>"
  using valid_sudoku_iff[of "\<lparr>shape = [1, 9, 9], data = replicate 81 5\<rparr>"]
    valid_sudoku_iff[of "\<lparr>shape = [9, 9], data = replicate 81 10\<rparr>"]
  by simp

text \<open>
  An array of shape \<open>(9, 9, 1)\<close> holding 81 zeros passes the check although its shape is
  not \<open>(9, 9)\<close>.
\<close>

theorem valid_sudoku_counterexample:
  "valid_sudoku \<lparr>shape = [9, 9, 1], data = replicate 81 0\<rparr> \<and>
   shape \<lparr>shape = [9, 9, 1], data = replicate 81 0\<rparr> \<noteq> [9, 9] \<and>
   length (data \<lparr>shape = [9, 9, 1], data = replicate 81 0\<rparr>) = prod_list [9, 9, 1]"
  by (simp add: valid_sudoku_def valid_numbers_def list_all_iff)

section \<open>Givens, conflicts and completions\<close>

text \<open>
  The vocabulary of the claims about solving. Two cells see each other when they share a
  row, a column or a box. A grid is conflict-free when no filled cell has its digit in
  another cell it sees. A completion of \<open>g\<close> is a 9x9 grid that passes \<open>check_sudoku\<close> and
  agrees with \<open>g\<close> on every filled cell of \<open>g\<close>. A well-formed grid is 9x9 with cells
  between 0 and 9.
\<close>

definition sees :: "nat \<times> nat \<Rightarrow> nat \<times> nat \<Rightarrow> bool" where
  "sees p q \<longleftrightarrow>
     fst p = fst q \<or> snd p = snd q \<or>
     (fst p div 3 = fst q div 3 \<and> snd p div 3 = snd q div 3)"

definition conflict_free :: "grid \<Rightarrow> bool" where
  "conflict_free g \<longleftrightarrow>
     (\<forall>y<9. \<forall>x<9. \<forall>y'<9. \<forall>x'<9.
        (y, x) \<noteq> (y', x') \<and> sees (y, x) (y', x') \<and> g ! y ! x \<noteq> 0
          \<longrightarrow> g ! y ! x \<noteq> g ! y' ! x')"

definition completion :: "grid \<Rightarrow> grid \<Rightarrow> bool" where
  "completion g c \<longleftrightarrow>
     grid9 c \<and> check_sudoku c \<and> (\<forall>y<9. \<forall>x<9. g ! y ! x \<noteq> 0 \<longrightarrow> c ! y ! x = g ! y ! x)"

definition has_completion :: "grid \<Rightarrow> bool" where
  "has_completion g \<longleftrightarrow> (\<exists>c. completion g c)"

definition partial_sudoku :: "grid \<Rightarrow> bool" where
  "partial_sudoku g \<longleftrightarrow>
     grid9 g \<and> conflict_free g \<and> (\<forall>y<9. \<forall>x<9. 0 \<le> g ! y ! x \<and> g ! y ! x \<le> 9)"

definition completion_except :: "nat \<times> nat \<Rightarrow> grid \<Rightarrow> grid \<Rightarrow> bool" where
  "completion_except p g c \<longleftrightarrow>
     grid9 c \<and> check_sudoku c \<and>
     (\<forall>y<9. \<forall>x<9. (y, x) \<noteq> p \<longrightarrow> g ! y ! x \<noteq> 0 \<longrightarrow> c ! y ! x = g ! y ! x)"

definition well_formed :: "grid \<Rightarrow> bool" where
  "well_formed g \<longleftrightarrow> grid9 g \<and> (\<forall>y<9. \<forall>x<9. 0 \<le> g ! y ! x \<and> g ! y ! x \<le> 9)"

lemma all_less_list: "(\<forall>y<n. P y) \<longleftrightarrow> list_all P [0..<n]"
  by (auto simp: list_all_iff)

lemma well_formed_code [code]:
  "well_formed g \<longleftrightarrow>
     grid9 g \<and> list_all (\<lambda>y. list_all (\<lambda>x. 0 \<le> g ! y ! x \<and> g ! y ! x \<le> 9) [0..<9]) [0..<9]"
  unfolding well_formed_def all_less_list ..

lemma completion_code [code]:
  "completion g c \<longleftrightarrow>
     grid9 c \<and> check_sudoku c \<and>
     list_all (\<lambda>y. list_all (\<lambda>x. g ! y ! x \<noteq> 0 \<longrightarrow> c ! y ! x = g ! y ! x) [0..<9]) [0..<9]"
  unfolding completion_def all_less_list ..

lemma conflict_free_code [code]:
  "conflict_free g \<longleftrightarrow>
     list_all (\<lambda>y. list_all (\<lambda>x. list_all (\<lambda>y'. list_all (\<lambda>x'.
        (y, x) \<noteq> (y', x') \<and> sees (y, x) (y', x') \<and> g ! y ! x \<noteq> 0
          \<longrightarrow> g ! y ! x \<noteq> g ! y' ! x') [0..<9]) [0..<9]) [0..<9]) [0..<9]"
  unfolding conflict_free_def all_less_list ..

lemma cells_in_range:
  assumes "grid9 g"
  shows "(\<forall>v \<in> set (concat g). 0 \<le> v \<and> v \<le> 9) \<longleftrightarrow> (\<forall>y<9. \<forall>x<9. 0 \<le> g ! y ! x \<and> g ! y ! x \<le> 9)"
proof -
  have "set (concat g) = {g ! y ! x | y x. y < 9 \<and> x < 9}"
  proof -
    have "set g = (\<lambda>y. g ! y) ` {..<9}" using set_all[of g] assms by (simp add: grid9_def)
    moreover have "set (g ! y) = (\<lambda>x. g ! y ! x) ` {..<9}" if "y < 9" for y
      using set_all[of "g ! y"] grid9_row[OF assms that] by simp
    ultimately show ?thesis by auto
  qed
  then show ?thesis by auto
qed

text \<open>A 9x9 grid is well-formed exactly when \<open>valid_sudoku\<close> accepts it as a 9x9 array.\<close>

lemma well_formed_valid_sudoku:
  assumes "grid9 g"
  shows "well_formed g \<longleftrightarrow> valid_sudoku \<lparr>shape = [9, 9], data = concat g\<rparr>"
proof -
  have "valid_sudoku \<lparr>shape = [9, 9], data = concat g\<rparr>
          \<longleftrightarrow> (\<forall>v \<in> set (concat g). 0 \<le> v \<and> v \<le> 9)"
    by (simp add: valid_sudoku_def valid_numbers_def list_all_iff)
  then show ?thesis using assms cells_in_range[OF assms] by (simp add: well_formed_def)
qed

definition diag_puzzle :: grid where
  "diag_puzzle =
    [[1, 0, 5, 2, 3, 7, 6, 9, 8],
     [6, 2, 7, 1, 8, 9, 3, 4, 5],
     [8, 9, 3, 5, 0, 4, 1, 2, 7],
     [2, 1, 6, 4, 7, 8, 9, 5, 3],
     [3, 7, 4, 9, 5, 1, 8, 6, 2],
     [5, 8, 9, 3, 2, 6, 4, 7, 1],
     [4, 5, 1, 8, 9, 2, 7, 3, 6],
     [9, 6, 2, 7, 1, 3, 5, 8, 0],
     [7, 3, 8, 6, 4, 5, 2, 1, 9]]"

subsection \<open>The placement test, cell against cell\<close>

lemma possible_sees:
  assumes "grid9 g" and "y < 9" and "x < 9"
  shows "possible g y x n \<longleftrightarrow> (\<forall>y'<9. \<forall>x'<9. sees (y, x) (y', x') \<longrightarrow> g ! y' ! x' \<noteq> n)"
proof -
  have "(\<exists>i<3. \<exists>j<3. g ! (y div 3 * 3 + i) ! (x div 3 * 3 + j) = n)
      \<longleftrightarrow> (\<exists>y'<9. \<exists>x'<9. y div 3 = y' div 3 \<and> x div 3 = x' div 3 \<and> g ! y' ! x' = n)"
    (is "?L \<longleftrightarrow> ?R")
  proof
    assume ?L
    then obtain i j where ij: "i < 3" "j < 3" "g ! (y div 3 * 3 + i) ! (x div 3 * 3 + j) = n"
      by blast
    have "y div 3 * 3 + i < 9" using ij(1) assms(2) by presburger
    moreover have "x div 3 * 3 + j < 9" using ij(2) assms(3) by presburger
    moreover have "y div 3 = (y div 3 * 3 + i) div 3" using ij(1) by presburger
    moreover have "x div 3 = (x div 3 * 3 + j) div 3" using ij(2) by presburger
    ultimately have "y div 3 * 3 + i < 9" "x div 3 * 3 + j < 9"
      "y div 3 = (y div 3 * 3 + i) div 3" "x div 3 = (x div 3 * 3 + j) div 3"
      by blast+
    with ij(3) show ?R by blast
  next
    assume ?R
    then obtain y' x' where r: "y' < 9" "x' < 9" "y div 3 = y' div 3" "x div 3 = x' div 3"
      "g ! y' ! x' = n" by blast
    have "y' = y div 3 * 3 + y' mod 3" using r(3) by presburger
    moreover have "x' = x div 3 * 3 + x' mod 3" using r(4) by presburger
    moreover have "y' mod 3 < 3" "x' mod 3 < 3" by auto
    ultimately show ?L using r(5) by metis
  qed
  moreover have "n \<in> box_values g (y div 3 * 3) (x div 3 * 3) \<longleftrightarrow>
      (\<exists>i<3. \<exists>j<3. g ! (y div 3 * 3 + i) ! (x div 3 * 3 + j) = n)"
    by (auto simp: box_values_def)
  ultimately have box: "n \<in> box_values g (y div 3 * 3) (x div 3 * 3) \<longleftrightarrow>
      (\<exists>y'<9. \<exists>x'<9. y div 3 = y' div 3 \<and> x div 3 = x' div 3 \<and> g ! y' ! x' = n)"
    by (rule trans[rotated])
  have row: "n \<in> row_values g y \<longleftrightarrow> (\<exists>x'<9. g ! y ! x' = n)"
    by (auto simp: row_values_def)
  have col: "n \<in> col_values g x \<longleftrightarrow> (\<exists>y'<9. g ! y' ! x = n)"
    by (auto simp: col_values_def)
  have "\<not> possible g y x n \<longleftrightarrow>
      (\<exists>x'<9. g ! y ! x' = n) \<or> (\<exists>y'<9. g ! y' ! x = n) \<or>
      (\<exists>y'<9. \<exists>x'<9. y div 3 = y' div 3 \<and> x div 3 = x' div 3 \<and> g ! y' ! x' = n)"
    using possible_values[OF assms, of n] unfolding row col box by blast
  also have "\<dots> \<longleftrightarrow> (\<exists>y'<9. \<exists>x'<9. sees (y, x) (y', x') \<and> g ! y' ! x' = n)"
    using assms(2,3) unfolding sees_def fst_conv snd_conv by blast
  finally show ?thesis by blast
qed

lemma nine_values:
  fixes f :: "'a \<Rightarrow> int"
  assumes "finite A" and "card A = 9"
  shows "f ` A = {1..9} \<longleftrightarrow> inj_on f A \<and> f ` A \<subseteq> {1..9}"
proof
  assume e: "f ` A = {1..9}"
  then have "card (f ` A) = card A" using assms(2) by simp
  then have "inj_on f A" using assms(1) by (rule eq_card_imp_inj_on[rotated])
  with e show "inj_on f A \<and> f ` A \<subseteq> {1..9}" by simp
next
  assume h: "inj_on f A \<and> f ` A \<subseteq> {1..9}"
  then have "card (f ` A) = 9" using assms(2) by (simp add: card_image)
  then have "card (f ` A) = card {1..9::int}" by simp
  with h show "f ` A = {1..9}" by (intro card_subset_eq) auto
qed

lemma card_box: "card ({..<3::nat} \<times> {..<3::nat}) = 9"
  by simp

lemma rows_iff:
  "row_values g y = {1..9} \<longleftrightarrow>
     (\<forall>x<9. \<forall>x'<9. x \<noteq> x' \<longrightarrow> g ! y ! x \<noteq> g ! y ! x') \<and> (\<forall>x<9. 1 \<le> g ! y ! x \<and> g ! y ! x \<le> 9)"
  unfolding row_values_def
  by (subst nine_values) (auto simp: inj_on_def)

lemma cols_iff:
  "col_values g x = {1..9} \<longleftrightarrow>
     (\<forall>y<9. \<forall>y'<9. y \<noteq> y' \<longrightarrow> g ! y ! x \<noteq> g ! y' ! x) \<and> (\<forall>y<9. 1 \<le> g ! y ! x \<and> g ! y ! x \<le> 9)"
  unfolding col_values_def
  by (subst nine_values) (auto simp: inj_on_def)

lemma boxes_iff:
  "box_values g a b = {1..9} \<longleftrightarrow>
     (\<forall>i<3. \<forall>j<3. \<forall>i'<3. \<forall>j'<3. (i, j) \<noteq> (i', j') \<longrightarrow> g ! (a + i) ! (b + j) \<noteq> g ! (a + i') ! (b + j')) \<and>
     (\<forall>i<3. \<forall>j<3. 1 \<le> g ! (a + i) ! (b + j) \<and> g ! (a + i) ! (b + j) \<le> 9)"
  unfolding box_values_def
  by (subst nine_values) (auto simp: inj_on_def)

lemma check_sudoku_regions:
  assumes "grid9 c" and "check_sudoku c"
  shows "y < 9 \<Longrightarrow> row_values c y = {1..9}"
    and "x < 9 \<Longrightarrow> col_values c x = {1..9}"
    and "by < 3 \<Longrightarrow> bx < 3 \<Longrightarrow> box_values c (3 * by) (3 * bx) = {1..9}"
  using check_sudoku_by_region[OF assms(1)] assms(2) by blast+

lemma check_cells:
  assumes "grid9 c" and "check_sudoku c" and "y < 9" and "x < 9"
  shows "1 \<le> c ! y ! x \<and> c ! y ! x \<le> 9"
  using check_sudoku_regions(1)[OF assms(1,2,3)] assms(4) unfolding rows_iff by blast

lemma check_conflict_free:
  assumes g: "grid9 c" and c: "check_sudoku c"
  shows "conflict_free c"
  unfolding conflict_free_def
proof (intro allI impI)
  fix y x y' x' :: nat
  assume y: "y < 9" and x: "x < 9" and y': "y' < 9" and x': "x' < 9"
    and h: "(y, x) \<noteq> (y', x') \<and> sees (y, x) (y', x') \<and> c ! y ! x \<noteq> 0"
  from h consider (row) "y = y'" "x \<noteq> x'" | (col) "x = x'" "y \<noteq> y'"
    | (box) "y div 3 = y' div 3" "x div 3 = x' div 3"
    unfolding sees_def by auto
  then show "c ! y ! x \<noteq> c ! y' ! x'"
  proof cases
    case row
    then show ?thesis
      using check_sudoku_regions(1)[OF g c y] x x' unfolding rows_iff by blast
  next
    case col
    then show ?thesis
      using check_sudoku_regions(2)[OF g c x] y y' unfolding cols_iff by blast
  next
    case box
    let ?a = "3 * (y div 3)" and ?b = "3 * (x div 3)"
    have b3: "y div 3 < 3" "x div 3 < 3" using y x by auto
    have e1: "?a + y mod 3 = y" "?b + x mod 3 = x" by simp_all
    have "3 * (y' div 3) + y' mod 3 = y'" "3 * (x' div 3) + x' mod 3 = x'" by simp_all
    then have e2: "?a + y' mod 3 = y'" "?b + x' mod 3 = x'"
      unfolding box[symmetric] by blast+
    note e = e1 e2
    have ne: "(y mod 3, x mod 3) \<noteq> (y' mod 3, x' mod 3)"
    proof
      assume "(y mod 3, x mod 3) = (y' mod 3, x' mod 3)"
      then have "y mod 3 = y' mod 3" "x mod 3 = x' mod 3" by simp_all
      then have "y = y'" "x = x'" using e by metis+
      then show False using h by simp
    qed
    have m: "y mod 3 < 3" "x mod 3 < 3" "y' mod 3 < 3" "x' mod 3 < 3" by auto
    have "c ! (?a + y mod 3) ! (?b + x mod 3) \<noteq> c ! (?a + y' mod 3) ! (?b + x' mod 3)"
      using check_sudoku_regions(3)[OF g c b3] m ne unfolding boxes_iff by blast
    then show ?thesis using e by simp
  qed
qed

lemma filled_check:
  assumes g: "grid9 g" and cf: "conflict_free g"
    and r: "\<forall>y<9. \<forall>x<9. 1 \<le> g ! y ! x \<and> g ! y ! x \<le> 9"
  shows "check_sudoku g"
proof -
  have d: "g ! y ! x \<noteq> g ! y' ! x'"
    if "y < 9" "x < 9" "y' < 9" "x' < 9" "(y, x) \<noteq> (y', x')" "sees (y, x) (y', x')"
    for y x y' x'
  proof -
    have "g ! y ! x \<noteq> 0" using r that(1,2) by fastforce
    then show ?thesis using cf that unfolding conflict_free_def by blast
  qed
  have rows: "row_values g y = {1..9}" if "y < 9" for y
    unfolding rows_iff using d[of y _ y] r that by (auto simp: sees_def)
  have cols: "col_values g x = {1..9}" if "x < 9" for x
    unfolding cols_iff using d[of _ x _ x] r that by (auto simp: sees_def)
  have boxes: "box_values g (3 * by) (3 * bx) = {1..9}" if "by < 3" "bx < 3" for "by" bx
    unfolding boxes_iff
  proof (intro conjI allI impI)
    fix i j i' j' :: nat
    assume b: "i < 3" "j < 3" "i' < 3" "j' < 3" and ne: "(i, j) \<noteq> (i', j')"
    have "3 * by + i < 9" "3 * bx + j < 9" "3 * by + i' < 9" "3 * bx + j' < 9"
      using that b by auto
    moreover have "(3 * by + i, 3 * bx + j) \<noteq> (3 * by + i', 3 * bx + j')" using ne by auto
    moreover have "sees (3 * by + i, 3 * bx + j) (3 * by + i', 3 * bx + j')"
      using b by (simp add: sees_def)
    ultimately show "g ! (3 * by + i) ! (3 * bx + j) \<noteq> g ! (3 * by + i') ! (3 * bx + j')"
      by (rule d)
  next
    fix i j :: nat
    assume b: "i < 3" "j < 3"
    then have "3 * by + i < 9" "3 * bx + j < 9" using that by auto
    then show "1 \<le> g ! (3 * by + i) ! (3 * bx + j)" "g ! (3 * by + i) ! (3 * bx + j) \<le> 9"
      using r by auto
  qed
  show ?thesis
    unfolding check_sudoku_by_region[OF g] using rows cols boxes by blast
qed

text \<open>
  C5. On a 9x9 grid the completion check holds exactly when the values of each of the 9
  rows, each of the 9 columns and each of the 9 boxes (origins \<open>(3 * by, 3 * bx)\<close>) form
  the set \<open>{1, ..., 9}\<close>. A grid that passes has no zero, and no digit twice in a row,
  column or box.
\<close>

theorem check_sudoku_iff:
  assumes "grid9 g"
  shows "(check_sudoku g \<longleftrightarrow>
            (\<forall>y<9. row_values g y = {1..9}) \<and>
            (\<forall>x<9. col_values g x = {1..9}) \<and>
            (\<forall>by<3. \<forall>bx<3. box_values g (3 * by) (3 * bx) = {1..9})) \<and>
         (check_sudoku g \<longrightarrow> (\<forall>y<9. \<forall>x<9. g ! y ! x \<noteq> 0) \<and> conflict_free g)"
proof (intro conjI impI)
  show "check_sudoku g \<longleftrightarrow>
            (\<forall>y<9. row_values g y = {1..9}) \<and>
            (\<forall>x<9. col_values g x = {1..9}) \<and>
            (\<forall>by<3. \<forall>bx<3. box_values g (3 * by) (3 * bx) = {1..9})"
    by (rule check_sudoku_by_region[OF assms])
next
  assume c: "check_sudoku g"
  show "\<forall>y<9. \<forall>x<9. g ! y ! x \<noteq> 0"
    using check_cells[OF assms c] by fastforce
next
  assume c: "check_sudoku g"
  show "conflict_free g" by (rule check_conflict_free[OF assms c])
qed

theorem check_sudoku_iff_witness:
  "grid9 solved_diag \<and> check_sudoku solved_diag \<and> row_values solved_diag 0 = {1..9} \<and>
   col_values solved_diag 8 = {1..9} \<and> box_values solved_diag 3 6 = {1..9} \<and>
   conflict_free solved_diag"
proof -
  note t = check_sudoku_iff[OF grid9_solved_diag]
  from t check_solved_diag have r: "\<forall>y<9. row_values solved_diag y = {1..9}" by blast
  from t check_solved_diag have c: "\<forall>x<9. col_values solved_diag x = {1..9}" by blast
  from t check_solved_diag
  have b: "\<forall>by<3. \<forall>bx<3. box_values solved_diag (3 * by) (3 * bx) = {1..9}"
    by blast
  from t check_solved_diag have f: "conflict_free solved_diag" by blast
  have "row_values solved_diag 0 = {1..9}" using r by simp
  moreover have "col_values solved_diag 8 = {1..9}" using c by simp
  moreover have "box_values solved_diag 3 6 = {1..9}"
    using b[rule_format, of 1 2] by simp
  ultimately show ?thesis using grid9_solved_diag check_solved_diag f by simp
qed

subsection \<open>Placing a digit in a conflict-free grid\<close>

lemma grid9_nth: "grid9 g \<longleftrightarrow> length g = 9 \<and> (\<forall>y<9. length (g ! y) = 9)"
  by (auto simp: grid9_def all_set_conv_all_nth)

lemma grid9_put: "grid9 g \<Longrightarrow> grid9 (put g y x n)"
  by (simp add: grid9_nth)

lemma cell_put:
  "grid9 g \<Longrightarrow> y' < 9 \<Longrightarrow> x' < 9 \<Longrightarrow>
   put g y x n ! y' ! x' = (if y' = y \<and> x' = x then n else g ! y' ! x')"
  by (simp add: put_nth grid9_nth)

lemma partial_put:
  assumes p: "partial_sudoku g" and y: "y < 9" and x: "x < 9"
    and ok: "possible g y x n" and n: "1 \<le> n" "n \<le> 9"
  shows "partial_sudoku (put g y x n)"
proof -
  have g: "grid9 g" and cf: "conflict_free g" using p by (auto simp: partial_sudoku_def)
  have free: "g ! y' ! x' \<noteq> n" if "y' < 9" "x' < 9" "sees (y, x) (y', x')" for y' x'
    using ok that unfolding possible_sees[OF g y x] by blast
  have sym: "sees q r \<Longrightarrow> sees r q" for q r by (auto simp: sees_def)
  have "conflict_free (put g y x n)"
    unfolding conflict_free_def
  proof (intro allI impI)
    fix a b a' b' :: nat
    assume a: "a < 9" and b: "b < 9" and a': "a' < 9" and b': "b' < 9"
      and h: "(a, b) \<noteq> (a', b') \<and> sees (a, b) (a', b') \<and> put g y x n ! a ! b \<noteq> 0"
    show "put g y x n ! a ! b \<noteq> put g y x n ! a' ! b'"
    proof (cases "(a, b) = (y, x)")
      case True
      then have "(a', b') \<noteq> (y, x)" "sees (y, x) (a', b')" using h by auto
      then show ?thesis using True free[OF a' b'] a b a' b' by (auto simp: cell_put[OF g])
    next
      case False
      show ?thesis
      proof (cases "(a', b') = (y, x)")
        case True
        then have "sees (y, x) (a, b)" using h sym by blast
        then show ?thesis using True False free[OF a b] a b a' b' by (auto simp: cell_put[OF g])
      next
        case F2: False
        have "g ! a ! b \<noteq> 0" using h False a b by (auto simp: cell_put[OF g])
        then have "g ! a ! b \<noteq> g ! a' ! b'"
          using cf h a b a' b' unfolding conflict_free_def by blast
        then show ?thesis using False F2 a b a' b' by (auto simp: cell_put[OF g])
      qed
    qed
  qed
  moreover have "\<forall>a<9. \<forall>b<9. 0 \<le> put g y x n ! a ! b \<and> put g y x n ! a ! b \<le> 9"
    using p n by (auto simp: partial_sudoku_def cell_put[OF g])
  ultimately show ?thesis using grid9_put[OF g] by (simp add: partial_sudoku_def)
qed

lemma partial_put_zero:
  assumes p: "partial_sudoku g"
  shows "partial_sudoku (put g y x 0)"
proof -
  have g: "grid9 g" and cf: "conflict_free g" using p by (auto simp: partial_sudoku_def)
  have "conflict_free (put g y x 0)"
    unfolding conflict_free_def
  proof (intro allI impI)
    fix a b a' b' :: nat
    assume a: "a < 9" and b: "b < 9" and a': "a' < 9" and b': "b' < 9"
      and h: "(a, b) \<noteq> (a', b') \<and> sees (a, b) (a', b') \<and> put g y x 0 ! a ! b \<noteq> 0"
    have ab: "(a, b) \<noteq> (y, x)" "g ! a ! b \<noteq> 0"
      using h a b by (auto simp: cell_put[OF g] split: if_splits)
    then have "g ! a ! b \<noteq> g ! a' ! b'"
      using cf h a b a' b' unfolding conflict_free_def by blast
    then show "put g y x 0 ! a ! b \<noteq> put g y x 0 ! a' ! b'"
      using ab a b a' b' by (auto simp: cell_put[OF g])
  qed
  moreover have "\<forall>a<9. \<forall>b<9. 0 \<le> put g y x 0 ! a ! b \<and> put g y x 0 ! a ! b \<le> 9"
    using p by (auto simp: partial_sudoku_def cell_put[OF g])
  ultimately show ?thesis using grid9_put[OF g] by (simp add: partial_sudoku_def)
qed

lemma zero_cells_grid9:
  "grid9 g \<Longrightarrow> (y, x) \<in> set (zero_cells g) \<longleftrightarrow> y < 9 \<and> x < 9 \<and> g ! y ! x = 0"
  by (auto simp: set_zero_cells grid9_nth)

lemma filled_partial_is_completion:
  assumes p: "partial_sudoku g" and z: "zero_cells g = []"
  shows "completion g g"
proof -
  have g: "grid9 g" using p by (simp add: partial_sudoku_def)
  have nz: "g ! y ! x \<noteq> 0" if "y < 9" "x < 9" for y x
    using zero_cells_grid9[OF g, of y x] z that by simp
  have "\<forall>y<9. \<forall>x<9. 1 \<le> g ! y ! x \<and> g ! y ! x \<le> 9"
    using p nz by (fastforce simp: partial_sudoku_def)
  then have "check_sudoku g" using p by (intro filled_check) (auto simp: partial_sudoku_def)
  then show ?thesis using g by (simp add: completion_def)
qed

lemma keeps_except_grid9:
  assumes "keeps_except p g h" and "grid9 g" and "y < 9" and "x < 9" and "(y, x) \<noteq> p"
    and "g ! y ! x \<noteq> 0"
  shows "h ! y ! x = g ! y ! x"
  using assms unfolding keeps_except_def grid9_nth by auto

lemma keeps_grid9_cell:
  assumes "keeps g h" and "grid9 g" and "y < 9" and "x < 9" and "g ! y ! x \<noteq> 0"
  shows "h ! y ! x = g ! y ! x"
  using assms unfolding keeps_def grid9_nth by auto

lemma completion_except_back:
  assumes "completion_except p h s" and "keeps_except p g h" and "grid9 g"
  shows "completion_except p g s"
  unfolding completion_except_def
proof (intro conjI allI impI)
  show "grid9 s" "check_sudoku s" using assms(1) by (auto simp: completion_except_def)
next
  fix y x :: nat
  assume b: "y < 9" "x < 9" and ne: "(y, x) \<noteq> p" and nz: "g ! y ! x \<noteq> 0"
  have e: "h ! y ! x = g ! y ! x" by (rule keeps_except_grid9[OF assms(2,3) b ne nz])
  then have "h ! y ! x \<noteq> 0" using nz by simp
  then have "s ! y ! x = h ! y ! x" using assms(1) b ne by (auto simp: completion_except_def)
  then show "s ! y ! x = g ! y ! x" using e by simp
qed

lemma completion_imp_except: "completion g s \<Longrightarrow> completion_except p g s"
  by (simp add: completion_def completion_except_def)

lemma completion_except_zero:
  "completion_except (y, x) g s \<Longrightarrow> g ! y ! x = 0 \<Longrightarrow> completion g s"
  unfolding completion_def completion_except_def by (metis prod.inject)

lemma completion_conflict_free:
  assumes "completion g c"
  shows "conflict_free g"
  unfolding conflict_free_def
proof (intro allI impI)
  fix y x y' x' :: nat
  assume b: "y < 9" "x < 9" "y' < 9" "x' < 9"
    and h: "(y, x) \<noteq> (y', x') \<and> sees (y, x) (y', x') \<and> g ! y ! x \<noteq> 0"
  have c: "grid9 c" "check_sudoku c" using assms by (auto simp: completion_def)
  have e: "c ! y ! x = g ! y ! x" using assms b h by (simp add: completion_def)
  show "g ! y ! x \<noteq> g ! y' ! x'"
  proof (cases "g ! y' ! x' = 0")
    case True
    then show ?thesis using h by simp
  next
    case False
    then have "c ! y' ! x' = g ! y' ! x'" using assms b by (simp add: completion_def)
    moreover have "c ! y ! x \<noteq> c ! y' ! x'"
      using check_conflict_free[OF c] b h e unfolding conflict_free_def by metis
    ultimately show ?thesis using e by simp
  qed
qed

section \<open>Every recorded grid is a completion\<close>

text \<open>
  Started on a conflict-free grid with cells between 0 and 9, the search keeps the grid
  such, and every grid it appends is a completion of the grid the call was given. This
  holds for every limit.
\<close>

lemma keeps_grid9: "keeps g h \<Longrightarrow> grid9 g \<Longrightarrow> grid9 h"
  unfolding keeps_def grid9_nth by auto

lemma solve_sound:
  "partial_sudoku (fst st) \<Longrightarrow>
     partial_sudoku (fst (solve ms st)) \<and>
     (\<forall>s \<in> set (drop (length (snd st)) (snd (solve ms st))). completion (fst st) s)"
  "partial_sudoku (fst st) \<Longrightarrow> y0 < 9 \<Longrightarrow> x0 < 9 \<Longrightarrow> set ns \<subseteq> {1..9} \<Longrightarrow>
     partial_sudoku (fst (try_digits ms y0 x0 ns st)) \<and>
     (\<forall>s \<in> set (drop (length (snd st)) (snd (try_digits ms y0 x0 ns st))).
        completion_except (y0, x0) (fst st) s)"
proof (induction ms st and ms y0 x0 ns st rule: solve_try_digits.induct)
  case (1 ms g sols)
  have p: "partial_sudoku g" using 1(2) by simp
  then have g: "grid9 g" by (simp add: partial_sudoku_def)
  show ?case
  proof (cases "zero_cells g")
    case Nil
    then show ?thesis using p filled_partial_is_completion[OF p Nil] by (simp add: solve.simps)
  next
    case (Cons q rest)
    obtain y x where q: "q = (y, x)" by (cases q)
    have mem: "(y, x) \<in> set (zero_cells g)" using Cons q by simp
    then have b: "y < 9" "x < 9" "g ! y ! x = 0" using zero_cells_grid9[OF g] by auto
    have eq: "solve ms (g, sols) = try_digits ms y x [1..9] (g, sols)"
      using Cons q by (simp add: solve.simps)
    have "set [1..9::int] \<subseteq> {1..9}" by simp
    from 1(1)[OF Cons q[symmetric] 1(2) b(1,2) this]
    show ?thesis unfolding eq using completion_except_zero[OF _ b(3)] by auto
  qed
next
  case (2 ms y0 x0 st)
  then show ?case by simp
next
  case (3 ms y0 x0 n ns g sols)
  have p: "partial_sudoku g" using 3(4) by simp
  then have g: "grid9 g" by (simp add: partial_sudoku_def)
  have n: "1 \<le> n" "n \<le> 9" and ns: "set ns \<subseteq> {1..9}" using 3(7) by auto
  show ?case
  proof (cases "possible g y0 x0 n")
    case False
    with 3(3)[OF False 3(4,5,6) ns] show ?thesis by simp
  next
    case True
    obtain g1 sols1 where s: "solve ms (put g y0 x0 n, sols) = (g1, sols1)"
      by (cases "solve ms (put g y0 x0 n, sols)")
    let ?g2 = "if below (length sols1) ms then put g1 y0 x0 0 else g1"
    let ?r = "try_digits ms y0 x0 ns (?g2, sols1)"
    have eq: "try_digits ms y0 x0 (n # ns) (g, sols) = ?r"
      using True s by simp
    have p1: "partial_sudoku (put g y0 x0 n)"
      by (rule partial_put[OF p 3(5,6) True n])
    have ih1: "partial_sudoku g1"
      "\<forall>s \<in> set (drop (length sols) sols1). completion (put g y0 x0 n) s"
      using 3(1)[OF True] p1 s by auto
    have p2: "partial_sudoku ?g2" using ih1(1) partial_put_zero by simp
    have ih2: "partial_sudoku (fst ?r)"
      "\<forall>s \<in> set (drop (length sols1) (snd ?r)). completion_except (y0, x0) ?g2 s"
      using 3(2)[OF True s[symmetric] _ 3(5,6) ns] p2 by auto
    obtain new1 where n1: "sols1 = sols @ new1"
      using solve_appends(1)[of ms "(put g y0 x0 n, sols)"] s by auto
    obtain new2 where n2: "snd ?r = sols1 @ new2"
      using solve_appends(2)[of ms y0 x0 ns "(?g2, sols1)"] by auto
    have k1: "keeps_except (y0, x0) g (put g y0 x0 n)" by (rule keeps_except_put)
    have k2: "keeps_except (y0, x0) (put g y0 x0 n) g1"
      using solve_keeps_cells(1)[of "(put g y0 x0 n, sols)" ms] s by (simp add: keeps_imp_except)
    have k3: "keeps_except (y0, x0) g1 ?g2"
      by (simp add: keeps_except_put keeps_except_refl)
    have k: "keeps_except (y0, x0) g ?g2"
      using keeps_except_trans[OF keeps_except_trans[OF k1 k2] k3] .
    have a: "completion_except (y0, x0) g s" if "s \<in> set new1" for s
    proof -
      have "completion (put g y0 x0 n) s" using ih1(2) that n1 by simp
      then show ?thesis
        using completion_except_back[OF completion_imp_except k1 g] by blast
    qed
    have b: "completion_except (y0, x0) g s" if "s \<in> set new2" for s
    proof -
      have "completion_except (y0, x0) ?g2 s" using ih2(2) that n2 by simp
      then show ?thesis using completion_except_back[OF _ k g] by blast
    qed
    have "set (drop (length sols) (snd ?r)) = set new1 \<union> set new2"
      using n1 n2 by simp
    then show ?thesis unfolding eq using ih2(1) a b by auto
  qed
qed

section \<open>The first completion is found\<close>

text \<open>
  With \<open>max_solutions = 1\<close> and an empty solution list: if the grid has a completion, the
  call returns one completion and leaves the grid equal to it; otherwise it returns no
  grid and restores the grid. In the loop of a frame the same holds for the completions
  whose digit at the frame's cell is still to be tried.
\<close>

lemma complete_stays:
  assumes g: "grid9 s" and c: "check_sudoku s" and b: "y0 < 9" "x0 < 9"
  shows "set ns \<subseteq> {1..9} \<Longrightarrow> try_digits ms y0 x0 ns (s, sols) = (s, sols)"
proof (induction ns)
  case Nil
  show ?case by simp
next
  case (Cons n ns)
  have "n \<in> row_values s y0" using check_sudoku_regions(1)[OF g c b(1)] Cons.prems by auto
  then have "\<not> possible s y0 x0 n" using possible_values[OF g b, of n] by blast
  then show ?case using Cons by simp
qed

lemma completion_possible:
  assumes c: "completion g c" and g: "grid9 g" and b: "y < 9" "x < 9" and z: "g ! y ! x = 0"
  shows "possible g y x (c ! y ! x)"
  unfolding possible_sees[OF g b]
proof (intro allI impI)
  fix y' x' :: nat
  assume b': "y' < 9" "x' < 9" and s: "sees (y, x) (y', x')"
  have c9: "grid9 c" and chk: "check_sudoku c" using c by (auto simp: completion_def)
  have pos: "1 \<le> c ! y ! x" using check_cells[OF c9 chk b] by simp
  show "g ! y' ! x' \<noteq> c ! y ! x"
  proof (cases "g ! y' ! x' = 0")
    case True
    then show ?thesis using pos by simp
  next
    case False
    then have e: "c ! y' ! x' = g ! y' ! x'" using c b' by (simp add: completion_def)
    have ne: "(y, x) \<noteq> (y', x')" using False z by auto
    have "c ! y ! x \<noteq> c ! y' ! x'"
      using check_conflict_free[OF c9 chk] ne s pos b b' unfolding conflict_free_def
      by (metis not_one_le_zero)
    then show ?thesis using e by simp
  qed
qed

lemma completion_put_iff:
  assumes g: "grid9 g" and b: "y < 9" "x < 9" and z: "g ! y ! x = 0" and n: "n \<noteq> 0"
  shows "completion (put g y x n) c \<longleftrightarrow> completion g c \<and> c ! y ! x = n"
proof
  assume h: "completion (put g y x n) c"
  have "c ! y ! x = n" using h b n by (auto simp: completion_def cell_put[OF g])
  moreover have "c ! y' ! x' = g ! y' ! x'" if "y' < 9" "x' < 9" "g ! y' ! x' \<noteq> 0" for y' x'
  proof -
    have "(y', x') \<noteq> (y, x)" using that(3) z by auto
    then have "put g y x n ! y' ! x' = g ! y' ! x'" using that by (auto simp: cell_put[OF g])
    then show ?thesis using h that by (auto simp: completion_def)
  qed
  ultimately show "completion g c \<and> c ! y ! x = n" using h by (simp add: completion_def)
next
  assume h: "completion g c \<and> c ! y ! x = n"
  then show "completion (put g y x n) c"
    by (auto simp: completion_def cell_put[OF g])
qed

lemma solve_complete:
  "ms = Limit 1 \<Longrightarrow> snd st = [] \<Longrightarrow> partial_sudoku (fst st) \<Longrightarrow>
     ((\<exists>c. completion (fst st) c) \<longrightarrow> (\<exists>s. solve ms st = (s, [s]) \<and> completion (fst st) s)) \<and>
     ((\<forall>c. \<not> completion (fst st) c) \<longrightarrow> solve ms st = st)"
  "ms = Limit 1 \<Longrightarrow> snd st = [] \<Longrightarrow> partial_sudoku (fst st) \<Longrightarrow>
   y0 < 9 \<Longrightarrow> x0 < 9 \<Longrightarrow> fst st ! y0 ! x0 = 0 \<Longrightarrow> set ns \<subseteq> {1..9} \<Longrightarrow>
     ((\<exists>c. completion (fst st) c \<and> c ! y0 ! x0 \<in> set ns) \<longrightarrow>
        (\<exists>s. try_digits ms y0 x0 ns st = (s, [s]) \<and> completion (fst st) s)) \<and>
     ((\<forall>c. completion (fst st) c \<longrightarrow> c ! y0 ! x0 \<notin> set ns) \<longrightarrow>
        try_digits ms y0 x0 ns st = st)"
proof (induction ms st and ms y0 x0 ns st rule: solve_try_digits.induct)
  case (1 ms g sols)
  have p: "partial_sudoku g" and e: "sols = []" using 1 by simp_all
  have g: "grid9 g" using p by (simp add: partial_sudoku_def)
  show ?case
  proof (cases "zero_cells g")
    case Nil
    have "completion g g" by (rule filled_partial_is_completion[OF p Nil])
    then show ?thesis using Nil e by (auto simp: solve.simps)
  next
    case (Cons q rest)
    obtain y x where q: "q = (y, x)" by (cases q)
    have mem: "(y, x) \<in> set (zero_cells g)" using Cons q by simp
    then have b: "y < 9" "x < 9" "g ! y ! x = 0" using zero_cells_grid9[OF g] by auto
    have eq: "solve ms (g, sols) = try_digits ms y x [1..9] (g, sols)"
      using Cons q by (simp add: solve.simps)
    have r: "c ! y ! x \<in> set [1..9]" if "completion g c" for c
      using check_cells[OF _ _ b(1,2), of c] that by (simp add: completion_def)
    have sub: "set [1..9::int] \<subseteq> {1..9}" by simp
    have z': "fst (g, sols) ! y ! x = 0" using b(3) by simp
    note ih = 1(1)[OF Cons q[symmetric] 1(2,3,4) b(1,2) z' sub]
    show ?thesis unfolding eq using ih r by (auto simp del: set_upto)
  qed
next
  case (2 ms y0 x0 st)
  then show ?case by simp
next
  case (3 ms y0 x0 n ns g sols)
  have ms: "ms = Limit 1" and e: "sols = []" and p: "partial_sudoku g"
    and b: "y0 < 9" "x0 < 9" and z: "g ! y0 ! x0 = 0"
    using 3(4-9) by simp_all
  have g: "grid9 g" using p by (simp add: partial_sudoku_def)
  have n: "1 \<le> n" "n \<le> 9" "n \<noteq> 0" and ns: "set ns \<subseteq> {1..9}" using 3(10) by auto
  have mem: "(y0, x0) \<in> set (zero_cells g)" using zero_cells_grid9[OF g] b z by simp
  show ?case
  proof (cases "possible g y0 x0 n")
    case False
    have eq: "try_digits ms y0 x0 (n # ns) (g, sols) = try_digits ms y0 x0 ns (g, sols)"
      using False by simp
    have "c ! y0 ! x0 \<noteq> n" if "completion g c" for c
      using completion_possible[OF that g b z] False by auto
    then show ?thesis using 3(3)[OF False 3(4-9) ns] unfolding eq by auto
  next
    case True
    obtain g1 sols1 where s: "solve ms (put g y0 x0 n, sols) = (g1, sols1)"
      by (cases "solve ms (put g y0 x0 n, sols)")
    let ?g2 = "if below (length sols1) ms then put g1 y0 x0 0 else g1"
    have eq: "try_digits ms y0 x0 (n # ns) (g, sols) = try_digits ms y0 x0 ns (?g2, sols1)"
      using True s by simp
    have p1: "partial_sudoku (put g y0 x0 n)"
      by (rule partial_put[OF p b True n(1,2)])
    have ih1: "(\<exists>c. completion (put g y0 x0 n) c) \<longrightarrow>
                 (\<exists>s. (g1, sols1) = (s, [s]) \<and> completion (put g y0 x0 n) s)"
      "(\<forall>c. \<not> completion (put g y0 x0 n) c) \<longrightarrow> (g1, sols1) = (put g y0 x0 n, sols)"
      using 3(1)[OF True ms] e p1 s by simp_all
    show ?thesis
    proof (cases "\<exists>c. completion (put g y0 x0 n) c")
      case A: True
      then obtain s1 where s1: "g1 = s1" "sols1 = [s1]" "completion (put g y0 x0 n) s1"
        using ih1(1) by auto
      have c1: "completion g s1" "s1 ! y0 ! x0 = n"
        using s1(3) completion_put_iff[OF g b z n(3)] by auto
      have "try_digits ms y0 x0 ns (?g2, sols1) = (s1, [s1])"
        using s1 ms c1(1) complete_stays[OF _ _ b ns, of s1 ms "[s1]"]
        by (simp add: completion_def)
      then show ?thesis unfolding eq using c1 by auto
    next
      case B: False
      then have r: "g1 = put g y0 x0 n" "sols1 = []" using ih1(2) e by auto
      have g2: "?g2 = g" using r ms put_put_zero[OF mem] by simp
      have eq2: "try_digits ms y0 x0 (n # ns) (g, sols) = try_digits ms y0 x0 ns (g, [])"
        unfolding eq using g2 r by simp
      have ih2: "(\<exists>c. completion g c \<and> c ! y0 ! x0 \<in> set ns) \<longrightarrow>
                   (\<exists>s. try_digits ms y0 x0 ns (g, []) = (s, [s]) \<and> completion g s)"
        "(\<forall>c. completion g c \<longrightarrow> c ! y0 ! x0 \<notin> set ns) \<longrightarrow>
                   try_digits ms y0 x0 ns (g, []) = (g, [])"
        using 3(2)[OF True s[symmetric] ms _ _ b _ ns] g2 r p z by simp_all
      have "c ! y0 ! x0 \<noteq> n" if "completion g c" for c
        using B completion_put_iff[OF g b z n(3), of c] that by auto
      then show ?thesis using ih2 e unfolding eq2 by auto
    qed
  qed
qed

text \<open>
  C1. For every well-formed grid with at least one completion, \<open>solve(G, 1)\<close> returns
  exactly one grid, and that grid passes \<open>check_sudoku\<close> (it is a completion of \<open>G\<close>).
\<close>

theorem solve_finds_one:
  assumes "well_formed g" and "completion g c"
  shows "\<exists>s. solve (Limit 1) (g, []) = (s, [s]) \<and> check_sudoku s \<and> completion g s"
proof -
  have "partial_sudoku g"
    using assms(1) completion_conflict_free[OF assms(2)]
    by (simp add: partial_sudoku_def well_formed_def)
  then have "\<exists>s. solve (Limit 1) (g, []) = (s, [s]) \<and> completion g s"
    using solve_complete(1)[of "Limit 1" "(g, [])"] assms(2) by auto
  then show ?thesis by (auto simp: completion_def)
qed

theorem solve_finds_one_witness:
  "well_formed diag_puzzle \<and> completion diag_puzzle solved_diag \<and>
   length (snd (solve (Limit 1) (diag_puzzle, []))) = 1 \<and>
   check_sudoku (hd (snd (solve (Limit 1) (diag_puzzle, []))))"
proof -
  have w: "well_formed diag_puzzle" by code_simp
  have c: "completion diag_puzzle solved_diag" by code_simp
  obtain s where "solve (Limit 1) (diag_puzzle, []) = (s, [s])" "check_sudoku s"
    using solve_finds_one[OF w c] by blast
  then show ?thesis using w c by simp
qed

section \<open>Grids without a completion\<close>

text \<open>
  C6, as the code has it. The search never compares the givens with each other, so the
  claim needs the givens to be conflict-free: for every well-formed, conflict-free grid
  without a completion, \<open>solve\<close> returns the empty list, for every limit. (The model of
  \<open>solve\<close> is a total function: on a 9x9 array no step of the search can raise.)
\<close>

theorem solve_without_completion:
  assumes "well_formed g" and "conflict_free g" and "\<not> has_completion g"
  shows "snd (solve ms (g, [])) = []"
proof -
  have p: "partial_sudoku (fst (g, []))"
    using assms(1,2) by (simp add: partial_sudoku_def well_formed_def)
  have "\<forall>s \<in> set (snd (solve ms (g, []))). completion g s"
    using solve_sound(1)[OF p, of ms] by simp
  then show ?thesis using assms(3) by (cases "snd (solve ms (g, []))") (auto simp: has_completion_def)
qed

lemma dead_end_no_completion: "\<not> has_completion dead_end"
proof
  assume "has_completion dead_end"
  then obtain c where c: "completion dead_end c" by (auto simp: has_completion_def)
  have g: "grid9 dead_end" by code_simp
  have z: "dead_end ! 0 ! 0 = 0" by code_simp
  have "possible dead_end 0 0 (c ! 0 ! 0)"
    by (rule completion_possible[OF c g _ _ z]) simp_all
  moreover have "1 \<le> c ! 0 ! 0 \<and> c ! 0 ! 0 \<le> 9"
    using check_cells[of c 0 0] c by (simp add: completion_def)
  then have "c ! 0 ! 0 \<in> set [1..9]" by simp
  moreover have "list_all (\<lambda>n. \<not> possible dead_end 0 0 n) [1..9]" by code_simp
  ultimately show False unfolding list_all_iff by blast
qed

theorem solve_without_completion_witness:
  "well_formed dead_end \<and> conflict_free dead_end \<and> snd (solve (Limit 1) (dead_end, [])) = []"
proof -
  have w: "well_formed dead_end" by code_simp
  have f: "conflict_free dead_end" by code_simp
  show ?thesis using solve_without_completion[OF w f dead_end_no_completion] w f by simp
qed

text \<open>
  With conflicting givens the result need not be empty: a grid of ones with one empty
  cell has no completion, yet \<open>solve(G, 1)\<close> returns filled grids.
\<close>

theorem solve_conflicting_givens_counterexample:
  "well_formed one_hole \<and> zero_cells one_hole \<noteq> [] \<and> \<not> has_completion one_hole \<and>
   snd (solve (Limit 1) (one_hole, [])) \<noteq> []"
proof -
  have w: "well_formed one_hole" by code_simp
  have z: "zero_cells one_hole \<noteq> []" by code_simp
  have nf: "\<not> conflict_free one_hole" by code_simp
  have nc: "\<not> has_completion one_hole"
    using completion_conflict_free nf by (auto simp: has_completion_def)
  have s: "snd (solve (Limit 1) (one_hole, [])) \<noteq> []" by code_simp
  show ?thesis using w z nc s by simp
qed

section \<open>The generated puzzle\<close>

text \<open>
  What the claim about generation assumes of the two random draws: the shuffled list is a
  permutation of the digits 1 to 9, and a sample of size \<open>k\<close> holds \<open>k\<close> different
  indices below 81. \<open>nonzero_cells\<close> lists the filled cells as \<open>zero_cells\<close> lists the
  empty ones; \<open>relabel d\<close> renames digit \<open>v\<close> to the \<open>v\<close>-th entry of \<open>d\<close>.
\<close>

definition nonzero_cells :: "grid \<Rightarrow> (nat \<times> nat) list" where
  "nonzero_cells g =
     concat (map (\<lambda>y. map (\<lambda>x. (y, x)) (filter (\<lambda>x. g ! y ! x \<noteq> 0) [0..<length (g ! y)]))
                 [0..<length g])"

definition relabel :: "int list \<Rightarrow> int \<Rightarrow> int" where
  "relabel d v = d ! nat (v - 1)"

definition sampler :: "(nat \<Rightarrow> nat list) \<Rightarrow> bool" where
  "sampler choice \<longleftrightarrow>
     (\<forall>k \<le> 81. length (choice k) = k \<and> distinct (choice k) \<and> (\<forall>i \<in> set (choice k). i < 81))"

definition shuffle_of_digits :: "int list \<Rightarrow> bool" where
  "shuffle_of_digits d \<longleftrightarrow> distinct d \<and> set d = set list_numbers"

lemma shuffle_length: "shuffle_of_digits d \<Longrightarrow> length d = 9"
proof -
  assume h: "shuffle_of_digits d"
  then have "distinct d" by (simp add: shuffle_of_digits_def)
  then have "card (set d) = length d" by (rule distinct_card)
  moreover have "set d = {1..9}" using h set_numbers_eq by (simp add: shuffle_of_digits_def set_numbers_def)
  ultimately show ?thesis by simp
qed

lemma shuffle_set: "shuffle_of_digits d \<Longrightarrow> set d = {1..9}"
  using set_numbers_eq by (simp add: shuffle_of_digits_def set_numbers_def)

lemma relabel_image:
  assumes "shuffle_of_digits d"
  shows "relabel d ` {1..9} = {1..9}"
proof -
  have l: "length d = 9" by (rule shuffle_length[OF assms])
  have "relabel d ` {1..9} = (\<lambda>i. d ! i) ` {..<9}"
  proof (intro set_eqI iffI)
    fix v assume "v \<in> relabel d ` {1..9}"
    then obtain u where u: "1 \<le> u" "u \<le> 9" "v = d ! nat (u - 1)"
      by (auto simp: relabel_def)
    then have "nat (u - 1) < 9" by simp
    then show "v \<in> (\<lambda>i. d ! i) ` {..<9}" using u(3) by blast
  next
    fix v assume "v \<in> (\<lambda>i. d ! i) ` {..<9}"
    then obtain i where i: "i < 9" "v = d ! i" by auto
    then have "int i + 1 \<in> {1..9}" "relabel d (int i + 1) = v" by (auto simp: relabel_def)
    then show "v \<in> relabel d ` {1..9}" by blast
  qed
  also have "\<dots> = set d" using set_all[of d] l by simp
  finally show ?thesis using shuffle_set[OF assms] by simp
qed

lemma grid9_map: "grid9 g \<Longrightarrow> grid9 (map (map f) g)"
  by (simp add: grid9_def)

lemma map_cell: "grid9 g \<Longrightarrow> y < 9 \<Longrightarrow> x < 9 \<Longrightarrow> map (map f) g ! y ! x = f (g ! y ! x)"
  by (simp add: grid9_nth)

lemma relabel_check:
  assumes g: "grid9 c" and c: "check_sudoku c" and f: "f ` {1..9} = {1..9::int}"
  shows "check_sudoku (map (map f) c)"
proof -
  have r: "row_values (map (map f) c) y = f ` row_values c y" if "y < 9" for y
    using that by (auto simp: row_values_def map_cell[OF g] image_image)
  have k: "col_values (map (map f) c) x = f ` col_values c x" if "x < 9" for x
    using that by (auto simp: col_values_def map_cell[OF g] image_image)
  have b: "box_values (map (map f) c) (3 * by) (3 * bx) = f ` box_values c (3 * by) (3 * bx)"
    if "by < 3" "bx < 3" for "by" bx
  proof -
    have "map (map f) c ! (3 * by + i) ! (3 * bx + j) = f (c ! (3 * by + i) ! (3 * bx + j))"
      if "i < 3" "j < 3" for i j
      using that \<open>by < 3\<close> \<open>bx < 3\<close> by (intro map_cell[OF g]) auto
    then have "(\<lambda>(i, j). map (map f) c ! (3 * by + i) ! (3 * bx + j)) ` ({..<3} \<times> {..<3})
        = (\<lambda>(i, j). f (c ! (3 * by + i) ! (3 * bx + j))) ` ({..<3} \<times> {..<3})"
      by (intro image_cong) auto
    also have "\<dots> = f ` ((\<lambda>(i, j). c ! (3 * by + i) ! (3 * bx + j)) ` ({..<3} \<times> {..<3}))"
      unfolding image_image by (intro image_cong) auto
    finally show ?thesis by (simp add: box_values_def)
  qed
  show ?thesis
    unfolding check_sudoku_by_region[OF grid9_map[OF g]]
    using r k b check_sudoku_regions[OF g c] f by auto
qed

lemma np_diag_cell:
  assumes "length d = 9" and "y < 9" and "x < 9"
  shows "np_diag d ! y ! x = (if x = y then d ! y else 0)"
  using assms by (simp add: np_diag_def nth_list_update)

lemma grid9_np_diag: "length d = 9 \<Longrightarrow> grid9 (np_diag d)"
  by (simp add: grid9_nth np_diag_def)

lemma solved_diag_diagonal: "y < 9 \<Longrightarrow> solved_diag ! y ! y = int y + 1"
proof -
  have "list_all (\<lambda>y. solved_diag ! y ! y = int y + 1) [0..<9]" by code_simp
  then show "y < 9 \<Longrightarrow> solved_diag ! y ! y = int y + 1"
    unfolding all_less_list[symmetric] by blast
qed

lemma np_diag_completion:
  assumes d: "shuffle_of_digits d"
  shows "well_formed (np_diag d)"
    and "completion (np_diag d) (map (map (relabel d)) solved_diag)"
proof -
  have l: "length d = 9" by (rule shuffle_length[OF d])
  have r: "1 \<le> d ! i \<and> d ! i \<le> 9" if "i < 9" for i
  proof -
    have "d ! i \<in> set d" using that l by simp
    then show ?thesis using shuffle_set[OF d] by simp
  qed
  have "0 \<le> np_diag d ! y ! x \<and> np_diag d ! y ! x \<le> 9" if "y < 9" "x < 9" for y x
    using r[OF that(1)] that by (simp add: np_diag_cell[OF l])
  then show "well_formed (np_diag d)"
    unfolding well_formed_def using grid9_np_diag[OF l] by blast
  have "check_sudoku (map (map (relabel d)) solved_diag)"
    by (rule relabel_check[OF grid9_solved_diag check_solved_diag relabel_image[OF d]])
  moreover have "map (map (relabel d)) solved_diag ! y ! x = np_diag d ! y ! x"
    if "y < 9" "x < 9" "np_diag d ! y ! x \<noteq> 0" for y x
  proof -
    have e: "x = y" using that by (auto simp: np_diag_cell[OF l] split: if_splits)
    have "map (map (relabel d)) solved_diag ! y ! y = relabel d (int y + 1)"
      using that(1) by (simp add: map_cell[OF grid9_solved_diag] solved_diag_diagonal)
    then show ?thesis using e that by (simp add: relabel_def np_diag_cell[OF l])
  qed
  ultimately show "completion (np_diag d) (map (map (relabel d)) solved_diag)"
    unfolding completion_def using grid9_map[OF grid9_solved_diag] by blast
qed

lemma zero_cells_put_zero:
  assumes "grid9 g" and "y < 9" and "x < 9"
  shows "set (zero_cells (put g y x 0)) = insert (y, x) (set (zero_cells g))"
proof (intro set_eqI)
  fix q :: "nat \<times> nat"
  obtain a b where q: "q = (a, b)" by (cases q)
  show "q \<in> set (zero_cells (put g y x 0)) \<longleftrightarrow> q \<in> insert (y, x) (set (zero_cells g))"
    unfolding q zero_cells_grid9[OF grid9_put[OF assms(1)]] insert_iff zero_cells_grid9[OF assms(1)]
    using assms(2,3) by (auto simp: cell_put[OF assms(1)])
qed

lemma clear_cells_zeros:
  "grid9 g \<Longrightarrow> \<forall>i \<in> set idx. i < 81 \<Longrightarrow>
   grid9 (clear_cells idx g) \<and>
   set (zero_cells (clear_cells idx g))
     = set (zero_cells g) \<union> (\<lambda>i. (i div 9, i mod 9)) ` set idx"
proof (induction idx arbitrary: g)
  case Nil
  then show ?case by (simp add: clear_cells_def)
next
  case (Cons i idx)
  have i: "i div 9 < 9" "i mod 9 < 9" using Cons.prems(2) by auto
  have g1: "grid9 (put g (i div 9) (i mod 9) 0)" by (rule grid9_put[OF Cons.prems(1)])
  have e: "clear_cells (i # idx) g = clear_cells idx (put g (i div 9) (i mod 9) 0)"
    by (simp add: clear_cells_def)
  show ?case
    unfolding e using Cons.IH[OF g1] Cons.prems(2) zero_cells_put_zero[OF Cons.prems(1) i]
    by auto
qed

lemma inj_divmod9: "inj_on (\<lambda>i::nat. (i div 9, i mod 9)) A"
proof (rule inj_onI)
  fix a b :: nat
  assume "(a div 9, a mod 9) = (b div 9, b mod 9)"
  then have "a div 9 = b div 9" "a mod 9 = b mod 9" by simp_all
  then show "a = b" by (metis div_mult_mod_eq)
qed

lemma set_nonzero_cells:
  "set (nonzero_cells g) = {(y, x). y < length g \<and> x < length (g ! y) \<and> g ! y ! x \<noteq> 0}"
  by (auto simp: nonzero_cells_def)

lemma distinct_nonzero_cells: "distinct (nonzero_cells g)"
  unfolding nonzero_cells_def by (rule distinct_pairs) simp_all

lemma cells_partition:
  assumes "grid9 g"
  shows "length (nonzero_cells g) + length (zero_cells g) = 81"
proof -
  have u: "set (nonzero_cells g) \<union> set (zero_cells g) = {..<9} \<times> {..<9}"
    using assms by (auto simp: set_nonzero_cells set_zero_cells grid9_nth)
  have i: "set (nonzero_cells g) \<inter> set (zero_cells g) = {}"
    by (auto simp: set_nonzero_cells set_zero_cells)
  have "card (set (nonzero_cells g) \<union> set (zero_cells g))
          = card (set (nonzero_cells g)) + card (set (zero_cells g))"
    by (rule card_Un_disjoint[OF _ _ i]) simp_all
  then have "card (set (nonzero_cells g)) + card (set (zero_cells g)) = 81"
    unfolding u by simp
  then show ?thesis
    by (simp add: distinct_card[OF distinct_nonzero_cells] distinct_card[OF distinct_zero_cells])
qed

lemma check_no_zero:
  assumes "grid9 s" and "check_sudoku s"
  shows "zero_cells s = []"
proof -
  have "q \<notin> set (zero_cells s)" for q :: "nat \<times> nat"
  proof (cases q)
    case (Pair y x)
    show ?thesis
      unfolding Pair zero_cells_grid9[OF assms(1)] using check_cells[OF assms, of y x] by auto
  qed
  then show ?thesis by (cases "zero_cells s") (auto simp del: set_empty)
qed

lemma generate_clues:
  assumes d: "shuffle_of_digits shuffled" and c: "sampler choice" and k: "k \<le> 81"
  shows "\<exists>s g. snd (solve (Limit 1) (np_diag shuffled, [])) = [s] \<and>
           g = clear_cells (choice (9 * 9 - k)) s \<and> grid9 g \<and>
           length (nonzero_cells g) = k \<and> length (zero_cells g) = 81 - k"
proof -
  have "partial_sudoku (np_diag shuffled)"
    using np_diag_completion[OF d] completion_conflict_free
    by (auto simp: partial_sudoku_def well_formed_def)
  then obtain s where s: "solve (Limit 1) (np_diag shuffled, []) = (s, [s])"
    and cs: "completion (np_diag shuffled) s"
    using solve_complete(1)[of "Limit 1" "(np_diag shuffled, [])"] np_diag_completion(2)[OF d]
    by auto
  have s9: "grid9 s" and chk: "check_sudoku s" using cs by (auto simp: completion_def)
  let ?idx = "choice (9 * 9 - k)"
  have "81 - k \<le> (81::nat)" by simp
  then have "length (choice (81 - k)) = 81 - k \<and> distinct (choice (81 - k)) \<and>
      (\<forall>i \<in> set (choice (81 - k)). i < 81)"
    using c unfolding sampler_def by blast
  then have idx: "length ?idx = 81 - k" "distinct ?idx" "\<forall>i \<in> set ?idx. i < 81"
    by simp_all
  let ?g = "clear_cells ?idx s"
  have g: "grid9 ?g"
    and z: "set (zero_cells ?g) = (\<lambda>i. (i div 9, i mod 9)) ` set ?idx"
    using clear_cells_zeros[OF s9 idx(3)] check_no_zero[OF s9 chk] by simp_all
  have "length (zero_cells ?g) = card ((\<lambda>i. (i div 9, i mod 9)) ` set ?idx)"
    using z distinct_card[OF distinct_zero_cells, of ?g] by simp
  also have "\<dots> = card (set ?idx)" by (rule card_image[OF inj_divmod9])
  also have "\<dots> = 81 - k" using idx(1,2) by (simp add: distinct_card)
  finally have zc: "length (zero_cells ?g) = 81 - k" .
  then have "length (nonzero_cells ?g) = k" using cells_partition[OF g] k by simp
  then show ?thesis using s g zc by simp
qed

text \<open>
  C7. For a shuffled diagonal and a sampler as above, \<open>generate_sudoku\<close> returns a 9x9
  grid with exactly 30 filled cells for \<open>'easy'\<close>, 24 for \<open>'medium'\<close> and 17 for \<open>'hard'\<close>
  (64 empty cells); for every other label it raises \<open>ValueError\<close> and returns no grid.
\<close>

theorem generate_sudoku_clues:
  assumes "shuffle_of_digits shuffled" and "sampler choice"
  shows "(\<exists>g. generate_sudoku ''easy'' shuffled choice = Inr g \<and> grid9 g \<and>
              length (nonzero_cells g) = 30) \<and>
         (\<exists>g. generate_sudoku ''medium'' shuffled choice = Inr g \<and> grid9 g \<and>
              length (nonzero_cells g) = 24) \<and>
         (\<exists>g. generate_sudoku ''hard'' shuffled choice = Inr g \<and> grid9 g \<and>
              length (nonzero_cells g) = 17 \<and> length (zero_cells g) = 64) \<and>
         (\<forall>difficulty. difficulty \<noteq> ''easy'' \<and> difficulty \<noteq> ''medium'' \<and> difficulty \<noteq> ''hard''
              \<longrightarrow> generate_sudoku difficulty shuffled choice = Inl ValueError)"
proof (intro conjI allI impI)
  show "\<exists>g. generate_sudoku ''easy'' shuffled choice = Inr g \<and> grid9 g \<and>
              length (nonzero_cells g) = 30"
    using generate_clues[OF assms, of 30] by (auto simp: generate_sudoku_def)
  show "\<exists>g. generate_sudoku ''medium'' shuffled choice = Inr g \<and> grid9 g \<and>
              length (nonzero_cells g) = 24"
    using generate_clues[OF assms, of 24] by (auto simp: generate_sudoku_def)
  show "\<exists>g. generate_sudoku ''hard'' shuffled choice = Inr g \<and> grid9 g \<and>
              length (nonzero_cells g) = 17 \<and> length (zero_cells g) = 64"
    using generate_clues[OF assms, of 17] by (auto simp: generate_sudoku_def)
next
  fix difficulty :: string
  assume "difficulty \<noteq> ''easy'' \<and> difficulty \<noteq> ''medium'' \<and> difficulty \<noteq> ''hard''"
  then show "generate_sudoku difficulty shuffled choice = Inl ValueError"
    by (simp add: generate_sudoku_def)
qed

theorem generate_sudoku_clues_witness:
  "shuffle_of_digits [3, 1, 4, 5, 9, 2, 6, 8, 7] \<and> sampler (\<lambda>k. [0..<k]) \<and>
   (\<exists>g. generate_sudoku ''hard'' [3, 1, 4, 5, 9, 2, 6, 8, 7] (\<lambda>k. [0..<k]) = Inr g \<and>
        length (nonzero_cells g) = 17) \<and>
   generate_sudoku ''extreme'' [3, 1, 4, 5, 9, 2, 6, 8, 7] (\<lambda>k. [0..<k]) = Inl ValueError"
proof -
  have d: "shuffle_of_digits [3, 1, 4, 5, 9, 2, 6, 8, 7]"
    unfolding shuffle_of_digits_def by code_simp
  have c: "sampler (\<lambda>k. [0..<k])" by (simp add: sampler_def)
  show ?thesis using generate_sudoku_clues[OF d c] d c by auto
qed

section \<open>A grid without empty cells\<close>

lemma zero_cells_empty_iff:
  "zero_cells g = [] \<longleftrightarrow> (\<forall>y < length g. \<forall>x < length (g ! y). g ! y ! x \<noteq> 0)"
proof -
  have "zero_cells g = [] \<longleftrightarrow> set (zero_cells g) = {}" by simp
  also have "\<dots> \<longleftrightarrow> (\<forall>y < length g. \<forall>x < length (g ! y). g ! y ! x \<noteq> 0)"
    unfolding set_zero_cells by auto
  finally show ?thesis .
qed

text \<open>
  C9. For every 9x9 grid without a zero cell, \<open>solve\<close> appends a copy of the grid to the
  solution list and returns, leaving the grid as it is; the completion check is not
  consulted, so a filled grid that breaks the uniqueness rules is recorded as well.
\<close>

theorem solve_filled_grid_recorded:
  assumes "grid9 g" and "\<forall>y < 9. \<forall>x < 9. g ! y ! x \<noteq> 0"
  shows "solve ms (g, sols) = (g, sols @ [g])"
proof -
  have "zero_cells g = []"
    using assms unfolding zero_cells_empty_iff grid9_def by auto
  then show ?thesis by (simp add: solve.simps)
qed

theorem solve_filled_grid_recorded_witness:
  "grid9 all_ones \<and> \<not> check_sudoku all_ones \<and>
   solve (Limit 1) (all_ones, []) = (all_ones, [all_ones])"
proof -
  have g: "grid9 all_ones" by (simp add: grid9_def all_ones_def)
  have c: "\<forall>y<9. \<forall>x<9. all_ones ! y ! x \<noteq> 0"
    by (simp add: all_ones_def)
  have n: "\<not> check_sudoku all_ones" by code_simp
  show ?thesis using solve_filled_grid_recorded[OF g c, of "Limit 1" "[]"] g n by simp
qed

end
